theory Spec2Isabelle
  imports Main "HOL-Library.Word"
begin

chapter \<open>The model\<close>

section \<open>The object graph of the tri-colour marking simulation\<close>

text \<open>
  The Go sources define \<^verbatim>\<open>type Color int\<close> with the constants
  \<^verbatim>\<open>White = iota\<close>, \<^verbatim>\<open>Gray\<close>, \<^verbatim>\<open>Black\<close>, and the structs
  \<^verbatim>\<open>Object\<close>, \<^verbatim>\<open>GCObject\<close>, \<^verbatim>\<open>DijkstraObject\<close>, \<^verbatim>\<open>YuasaObject\<close> and
  \<^verbatim>\<open>HybridObject\<close>, which all carry the fields \<^verbatim>\<open>id int\<close>, \<^verbatim>\<open>color Color\<close> and
  \<^verbatim>\<open>children []*T\<close> (\<^verbatim>\<open>Object\<close> has a byte slice \<^verbatim>\<open>data\<close> besides, which no
  function below reads or writes; the barrier objects have a mutex \<^verbatim>\<open>mu\<close>). One
  record stands for all of them.

  Objects are shared through pointers (in \<^verbatim>\<open>createObjectGraph\<close> two objects point to
  the same child), so the model keeps them in an arena: a heap is the list of all
  allocated objects, a pointer is an index into it, and an index outside the arena
  stands for \<^verbatim>\<open>nil\<close>. Dereferencing \<^verbatim>\<open>nil\<close> panics in Go; the model returns
  \<open>Inl NilDereference\<close>.

  The field \<^verbatim>\<open>id\<close> is called \<open>id_num\<close> here (\<open>id\<close> is the identity function of HOL);
  ids are only copied and printed, so they are unbounded integers. The mutex makes one
  barrier call one atomic step; the model runs the calls one after the other.
\<close>

datatype Color = White | Gray | Black

text \<open>The numeric value of a colour constant (\<^verbatim>\<open>iota\<close> counts from 0).\<close>

fun rank :: "Color \<Rightarrow> nat" where
  "rank White = 0"
| "rank Gray = 1"
| "rank Black = 2"

record Object =
  id_num :: int
  color :: Color
  data :: "8 word list"
  children :: "nat list"

type_synonym heap = "Object list"

datatype error = NilDereference

text \<open>
  The composite literal \<^verbatim>\<open>&Object{id: i, color: c}\<close> with its children filled in.
\<close>

definition new_object :: "int \<Rightarrow> Color \<Rightarrow> nat list \<Rightarrow> Object" where
  "new_object i c cs = \<lparr>id_num = i, color = c, data = [], children = cs\<rparr>"

text \<open>The assignment \<^verbatim>\<open>p.color = c\<close> for a pointer \<open>p\<close> that is not nil.\<close>

definition set_color :: "heap \<Rightarrow> nat \<Rightarrow> Color \<Rightarrow> heap" where
  "set_color h p c = h[p := (h ! p)\<lparr>color := c\<rparr>]"

text \<open>The assignment \<^verbatim>\<open>p.children = append(p.children, child)\<close>.\<close>

definition append_child :: "heap \<Rightarrow> nat \<Rightarrow> nat \<Rightarrow> heap" where
  "append_child h p child = h[p := (h ! p)\<lparr>children := children (h ! p) @ [child]\<rparr>]"

section \<open>The write barriers\<close>

text \<open>
  \<^verbatim>\<open>func (obj *DijkstraObject) dijkstraWriteBarrier(child *DijkstraObject)\<close>:
  lock \<^verbatim>\<open>obj.mu\<close> (a panic when \<open>obj\<close> is nil), print both ids (a panic when
  \<open>child\<close> is nil), turn a White child of a Black holder Gray, then append the child
  to the holder's children.
\<close>

definition dijkstraWriteBarrier :: "heap \<Rightarrow> nat \<Rightarrow> nat \<Rightarrow> error + heap" where
  "dijkstraWriteBarrier h obj child =
     (if length h \<le> obj \<or> length h \<le> child then Inl NilDereference
      else
        let h1 = (if color (h ! obj) = Black \<and> color (h ! child) = White
                  then set_color h child Gray else h)
        in Inr (append_child h1 obj child))"

text \<open>\<^verbatim>\<open>yuasaWriteBarrier\<close>: the same with the test \<^verbatim>\<open>obj.color == Gray && child.color == White\<close>.\<close>

definition yuasaWriteBarrier :: "heap \<Rightarrow> nat \<Rightarrow> nat \<Rightarrow> error + heap" where
  "yuasaWriteBarrier h obj child =
     (if length h \<le> obj \<or> length h \<le> child then Inl NilDereference
      else
        let h1 = (if color (h ! obj) = Gray \<and> color (h ! child) = White
                  then set_color h child Gray else h)
        in Inr (append_child h1 obj child))"

text \<open>
  \<^verbatim>\<open>hybridWriteBarrier\<close>: the branch the source marks as the Dijkstra condition,
  else the branch it marks as the Yuasa condition, then the append.
\<close>

definition hybridWriteBarrier :: "heap \<Rightarrow> nat \<Rightarrow> nat \<Rightarrow> error + heap" where
  "hybridWriteBarrier h obj child =
     (if length h \<le> obj \<or> length h \<le> child then Inl NilDereference
      else
        let h1 = (if color (h ! obj) = Black \<and> color (h ! child) = White
                  then set_color h child Gray
                  else if color (h ! obj) = Gray \<and> color (h ! child) = White
                  then set_color h child Gray
                  else h)
        in Inr (append_child h1 obj child))"

section \<open>The marking engine: \<^verbatim>\<open>markPhase\<close>\<close>

text \<open>
  \<^verbatim>\<open>markPhase\<close> writes colours only, and prints one line for each colour it writes.
  The model returns the heap together with the sequence of those colour writes, in
  program order: the pair \<open>(p, c)\<close> stands for the assignment \<^verbatim>\<open>p.color = c\<close>.

  The inner loop \<^verbatim>\<open>for _, child := range current.children\<close>: a White child turns
  Gray and is appended to \<^verbatim>\<open>grayObjects\<close>; reading the colour of a nil child panics.
\<close>

fun markPhase_children ::
  "nat list \<Rightarrow> heap \<Rightarrow> nat list \<Rightarrow> error + heap \<times> nat list \<times> (nat \<times> Color) list" where
  "markPhase_children [] h grayObjects = Inr (h, grayObjects, [])"
| "markPhase_children (child # cs) h grayObjects =
     (if length h \<le> child then Inl NilDereference
      else if color (h ! child) = White
      then (case markPhase_children cs (set_color h child Gray) (grayObjects @ [child]) of
              Inl e \<Rightarrow> Inl e
            | Inr (h', g', ws) \<Rightarrow> Inr (h', g', (child, Gray) # ws))
      else markPhase_children cs h grayObjects)"

text \<open>
  The loop \<^verbatim>\<open>for len(grayObjects) > 0\<close>: take the first gray object off the list,
  shade its children, turn it Black. The recursion is not structural; that it ends
  is proved below, after the facts it needs: every round takes one entry off the
  worklist and adds one entry for each object that stops being White, so the number
  of White objects plus the length of the worklist goes down.
\<close>

function markPhase_loop :: "heap \<Rightarrow> nat list \<Rightarrow> error + heap \<times> (nat \<times> Color) list" where
  "markPhase_loop h [] = Inr (h, [])"
| "markPhase_loop h (current # rest) =
     (if length h \<le> current then Inl NilDereference
      else (case markPhase_children (children (h ! current)) h rest of
              Inl e \<Rightarrow> Inl e
            | Inr (h1, g1, ws1) \<Rightarrow>
                (case markPhase_loop (set_color h1 current Black) g1 of
                   Inl e \<Rightarrow> Inl e
                 | Inr (h2, ws2) \<Rightarrow> Inr (h2, ws1 @ (current, Black) # ws2))))"
  by pat_completeness auto

text \<open>
  \<^verbatim>\<open>func markPhase(root *Object)\<close>: the root turns Gray whatever its colour was
  (a panic when it is nil) and is the first entry of the worklist.
\<close>

definition markPhase :: "heap \<Rightarrow> nat \<Rightarrow> error + heap \<times> (nat \<times> Color) list" where
  "markPhase h root =
     (if length h \<le> root then Inl NilDereference
      else (case markPhase_loop (set_color h root Gray) [root] of
              Inl e \<Rightarrow> Inl e
            | Inr (h', ws) \<Rightarrow> Inr (h', (root, Gray) # ws)))"

section \<open>The recursive marker: \<^verbatim>\<open>markObject\<close>\<close>

text \<open>
  \<^verbatim>\<open>func markObject(obj *GCObject)\<close> calls itself for every child. The first
  argument of the model bounds the depth of the recursion: \<open>None\<close> says that the
  bound did not suffice. An object that is not White returns at once; a White one
  turns Gray, marks its children one after the other, and turns Black.
\<close>

fun markObject :: "nat \<Rightarrow> heap \<Rightarrow> nat \<Rightarrow> (error + heap \<times> (nat \<times> Color) list) option"
  and markObject_children ::
    "nat \<Rightarrow> heap \<Rightarrow> nat list \<Rightarrow> (error + heap \<times> (nat \<times> Color) list) option" where
  "markObject 0 h obj = None"
| "markObject (Suc n) h obj =
     (if length h \<le> obj then Some (Inl NilDereference)
      else if color (h ! obj) \<noteq> White then Some (Inr (h, []))
      else (case markObject_children n (set_color h obj Gray) (children (h ! obj)) of
              None \<Rightarrow> None
            | Some (Inl e) \<Rightarrow> Some (Inl e)
            | Some (Inr (h1, ws)) \<Rightarrow>
                Some (Inr (set_color h1 obj Black, (obj, Gray) # ws @ [(obj, Black)]))))"
| "markObject_children n h [] = Some (Inr (h, []))"
| "markObject_children n h (child # cs) =
     (case markObject n h child of
        None \<Rightarrow> None
      | Some (Inl e) \<Rightarrow> Some (Inl e)
      | Some (Inr (h1, ws1)) \<Rightarrow>
          (case markObject_children n h1 cs of
             None \<Rightarrow> None
           | Some (Inl e) \<Rightarrow> Some (Inl e)
           | Some (Inr (h2, ws2)) \<Rightarrow> Some (Inr (h2, ws1 @ ws2))))"

section \<open>The sweeper: \<^verbatim>\<open>sweepPhase\<close>\<close>

text \<open>
  \<^verbatim>\<open>sweepPhase\<close> prints one line for every entry of \<^verbatim>\<open>allObjects\<close>: the id and,
  by the colour, ``reclaimed'' (White), ``abnormal state'' (Gray) or ``alive'' (Black).
\<close>

datatype verdict = Reclaimed | Abnormal | Alive

definition sweep_line :: "Object \<Rightarrow> int \<times> verdict" where
  "sweep_line ob =
     (id_num ob, case color ob of White \<Rightarrow> Reclaimed | Gray \<Rightarrow> Abnormal | Black \<Rightarrow> Alive)"

text \<open>
  The closure \<^verbatim>\<open>collectAll\<close> appends every child to \<^verbatim>\<open>allObjects\<close> and calls
  itself for it; it keeps no record of the objects it has seen. The first argument
  bounds the depth of the recursion, as for \<open>markObject\<close>.
\<close>

fun collectAll :: "nat \<Rightarrow> heap \<Rightarrow> nat \<Rightarrow> nat list \<Rightarrow> (error + nat list) option"
  and collectAll_children :: "nat \<Rightarrow> heap \<Rightarrow> nat list \<Rightarrow> nat list \<Rightarrow> (error + nat list) option" where
  "collectAll 0 h obj allObjects = None"
| "collectAll (Suc n) h obj allObjects =
     (if length h \<le> obj then Some (Inl NilDereference)
      else collectAll_children n h (children (h ! obj)) allObjects)"
| "collectAll_children n h [] allObjects = Some (Inr allObjects)"
| "collectAll_children n h (child # cs) allObjects =
     (case collectAll n h child (allObjects @ [child]) of
        None \<Rightarrow> None
      | Some (Inl e) \<Rightarrow> Some (Inl e)
      | Some (Inr all') \<Rightarrow> collectAll_children n h cs all')"

text \<open>
  \<^verbatim>\<open>func sweepPhase(root *Object)\<close>: \<^verbatim>\<open>allObjects\<close> starts as \<^verbatim>\<open>[root]\<close>,
  \<^verbatim>\<open>collectAll(root)\<close> fills it, and the last loop prints the lines. The source
  assigns to no field of any object and calls no allocator, so the heap the sweep
  leaves is the heap it was given, whether the traversal returns, panics or never
  ends; the second component is the printed report when there is one.
\<close>

definition sweepPhase :: "nat \<Rightarrow> heap \<Rightarrow> nat \<Rightarrow> heap \<times> (error + (int \<times> verdict) list) option" where
  "sweepPhase n h root =
     (h, case collectAll n h root [root] of
           None \<Rightarrow> None
         | Some (Inl e) \<Rightarrow> Some (Inl e)
         | Some (Inr allObjects) \<Rightarrow> Some (Inr (map (\<lambda>p. sweep_line (h ! p)) allObjects)))"

section \<open>The example graphs of the sources\<close>

text \<open>
  \<^verbatim>\<open>createObjectGraph\<close>: five objects, allocated in the order root, child1, child2,
  child3, orphan with the ids 1, 2, 3, 4 and 99, all White; the root points to child1
  and child2, which both point to child3. The function returns the root; nothing
  points to the orphan.
\<close>

definition createObjectGraph :: "heap \<times> nat" where
  "createObjectGraph =
     ([new_object 1 White [1, 2], new_object 2 White [3], new_object 3 White [3],
       new_object 4 White [], new_object 99 White []], 0)"

text \<open>
  \<^verbatim>\<open>demonstrateDijkstraWriteBarrier\<close> starts from obj1 (Black), obj2 and obj3 (White),
  none pointing anywhere; \<^verbatim>\<open>demonstrateYuasaWriteBarrier\<close> from the same with a Gray
  obj1. No marking runs in either demonstration.
\<close>

definition dijkstra_demo :: heap where
  "dijkstra_demo = [new_object 1 Black [], new_object 2 White [], new_object 3 White []]"

definition yuasa_demo :: heap where
  "yuasa_demo = [new_object 1 Gray [], new_object 2 White [], new_object 3 White []]"

text \<open>A holder that already points to a White object (index 1), and a second White object.\<close>

definition holder_demo :: "Color \<Rightarrow> heap" where
  "holder_demo c = [new_object 1 c [1], new_object 2 White [], new_object 3 White []]"

text \<open>
  A marked heap: the root (index 0) and the object A it points to (index 1) are Black,
  the object B (index 2) is White and nothing points to it.
\<close>

definition marked_demo :: heap where
  "marked_demo = [new_object 1 Black [1], new_object 2 Black [], new_object 3 White []]"

text \<open>A cyclic graph: two White objects that point to each other, the first also to itself.\<close>

definition cycle_demo :: heap where
  "cycle_demo = [new_object 1 White [1, 0], new_object 2 White [0]]"

section \<open>Notions the claims are stated with\<close>

text \<open>An object is reachable from the root when a chain of \<^verbatim>\<open>children\<close> entries leads to it.\<close>

inductive reachable :: "heap \<Rightarrow> nat \<Rightarrow> nat \<Rightarrow> bool" for h :: heap and root :: nat where
  reachable_root: "reachable h root root"
| reachable_child:
    "reachable h root p \<Longrightarrow> p < length h \<Longrightarrow> c \<in> set (children (h ! p)) \<Longrightarrow> reachable h root c"

text \<open>
  A sequence of colour writes moves forward when every write gives its object a
  colour that is not below the one the object has at that moment.
\<close>

fun forward :: "heap \<Rightarrow> (nat \<times> Color) list \<Rightarrow> bool" where
  "forward h [] = True"
| "forward h ((p, c) # ws) =
     (p < length h \<and> rank (color (h ! p)) \<le> rank c \<and> forward (set_color h p c) ws)"

text \<open>The heap after a sequence of colour writes.\<close>

fun replay :: "heap \<Rightarrow> (nat \<times> Color) list \<Rightarrow> heap" where
  "replay h [] = h"
| "replay h ((p, c) # ws) = replay (set_color h p c) ws"

text \<open>The objects a sequence of writes turns Black: the ones whose children were scanned.\<close>

definition scanned :: "(nat \<times> Color) list \<Rightarrow> nat list" where
  "scanned ws = map fst (filter (\<lambda>w. snd w = Black) ws)"

text \<open>
  The number of White objects of the arena: with the length of the worklist, what
  the loop of \<^verbatim>\<open>markPhase\<close> consumes.
\<close>

definition whites :: "heap \<Rightarrow> nat" where
  "whites h = card {p. p < length h \<and> color (h ! p) = White}"

text \<open>
  A set of pointers is closed when each of them is allocated and all their children
  are in the set again. The tri-colour condition on such a set, for a worklist: the
  worklist lies in the set, every Gray object of the set is on the worklist, and no
  Black object of the set points to a White one.
\<close>

definition closed_in :: "heap \<Rightarrow> nat set \<Rightarrow> bool" where
  "closed_in h R \<longleftrightarrow> (\<forall>p \<in> R. p < length h \<and> set (children (h ! p)) \<subseteq> R)"

definition tricolour :: "heap \<Rightarrow> nat set \<Rightarrow> nat list \<Rightarrow> bool" where
  "tricolour h R g \<longleftrightarrow>
     set g \<subseteq> R \<and>
     (\<forall>p \<in> R. color (h ! p) = Gray \<longrightarrow> p \<in> set g) \<and>
     (\<forall>p \<in> R. color (h ! p) = Black \<longrightarrow> (\<forall>c \<in> set (children (h ! p)). color (h ! c) \<noteq> White))"

text \<open>
  \<open>marked_by h h' ws\<close>: the heap \<open>h'\<close> arises from \<open>h\<close> by the colour writes \<open>ws\<close>, which
  all move forward; the graph is the same; no object that was not White in \<open>h\<close> has
  changed; the objects that were scanned are pairwise distinct, were White in \<open>h\<close>
  and are Black in \<open>h'\<close>.
\<close>

definition marked_by :: "heap \<Rightarrow> heap \<Rightarrow> (nat \<times> Color) list \<Rightarrow> bool" where
  "marked_by h h' ws \<longleftrightarrow>
     length h' = length h \<and>
     (\<forall>q. children (h' ! q) = children (h ! q) \<and> id_num (h' ! q) = id_num (h ! q)) \<and>
     replay h ws = h' \<and> forward h ws \<and> distinct (scanned ws) \<and>
     (\<forall>q < length h. color (h ! q) \<noteq> White \<longrightarrow> color (h' ! q) = color (h ! q)) \<and>
     (\<forall>q \<in> set (scanned ws). q < length h \<and> color (h ! q) = White \<and> color (h' ! q) = Black)"

chapter \<open>Facts about the model\<close>

section \<open>The heap updates\<close>

lemma length_set_color: "length (set_color h p c) = length h"
  by (simp add: set_color_def)

lemma length_append_child: "length (append_child h p x) = length h"
  by (simp add: append_child_def)

lemma color_set_color:
  "p < length h \<Longrightarrow> color (set_color h p c ! q) = (if q = p then c else color (h ! q))"
  by (simp add: set_color_def nth_list_update)

lemma children_set_color: "children (set_color h p c ! q) = children (h ! q)"
  by (cases "p < length h"; cases "q = p") (simp_all add: set_color_def list_update_beyond)

lemma id_num_set_color: "id_num (set_color h p c ! q) = id_num (h ! q)"
  by (cases "p < length h"; cases "q = p") (simp_all add: set_color_def list_update_beyond)

lemma color_append_child: "color (append_child h p x ! q) = color (h ! q)"
  by (cases "p < length h"; cases "q = p") (simp_all add: append_child_def list_update_beyond)

lemma id_num_append_child: "id_num (append_child h p x ! q) = id_num (h ! q)"
  by (cases "p < length h"; cases "q = p") (simp_all add: append_child_def list_update_beyond)

lemma children_append_child:
  "p < length h \<Longrightarrow>
   children (append_child h p x ! q) = (if q = p then children (h ! p) @ [x] else children (h ! q))"
  by (simp add: append_child_def nth_list_update)

lemma map_color_append_child: "map color (append_child h p x) = map color h"
  by (simp add: list_eq_iff_nth_eq length_append_child color_append_child)

lemmas demo_defs = new_object_def dijkstra_demo_def yuasa_demo_def holder_demo_def
  marked_demo_def cycle_demo_def set_color_def append_child_def

section \<open>The loop of \<^verbatim>\<open>markPhase\<close> ends\<close>

lemma whites_shade:
  assumes "p < length h" "color (h ! p) = White" "c \<noteq> White"
  shows "Suc (whites (set_color h p c)) = whites h"
proof -
  let ?W = "{q. q < length h \<and> color (h ! q) = White}"
  have eq: "{q. q < length (set_color h p c) \<and> color (set_color h p c ! q) = White} = ?W - {p}"
    using assms by (auto simp: length_set_color color_set_color)
  have "p \<in> ?W" using assms by simp
  then have "Suc (card (?W - {p})) = card ?W"
    by (intro card_Suc_Diff1) simp_all
  then show ?thesis
    by (simp add: whites_def eq)
qed

lemma whites_darken:
  assumes "c \<noteq> White"
  shows "whites (set_color h p c) \<le> whites h"
proof (cases "p < length h")
  case True
  have "{q. q < length (set_color h p c) \<and> color (set_color h p c ! q) = White}
        \<subseteq> {q. q < length h \<and> color (h ! q) = White}"
    using assms True by (auto simp: length_set_color color_set_color split: if_splits)
  then show ?thesis
    unfolding whites_def by (intro card_mono) simp_all
next
  case False
  then show ?thesis by (simp add: set_color_def list_update_beyond)
qed

lemma markPhase_children_measure:
  "markPhase_children cs h g = Inr (h', g', ws) \<Longrightarrow>
   length h' = length h \<and> whites h' + length g' = whites h + length g"
proof (induction cs arbitrary: h g h' g' ws)
  case Nil
  then show ?case by simp
next
  case (Cons c cs)
  show ?case
  proof (cases "length h \<le> c")
    case True
    with Cons.prems show ?thesis by simp
  next
    case inb: False
    show ?thesis
    proof (cases "color (h ! c) = White")
      case True
      with inb Cons.prems obtain ws' where
        r: "markPhase_children cs (set_color h c Gray) (g @ [c]) = Inr (h', g', ws')"
        by (auto split: sum.splits)
      from Cons.IH[OF r] whites_shade[of c h Gray] inb True show ?thesis
        by (simp add: length_set_color)
    next
      case False
      with inb Cons.prems Cons.IH show ?thesis by simp
    qed
  qed
qed

lemma markPhase_loop_total: "All markPhase_loop_dom"
proof (relation "measure (\<lambda>(h, g). whites h + length g)")
  show "wf (measure (\<lambda>(h, g). whites h + length g))" by simp
next
  fix h :: heap and current rest x2 h1 y g1 ws1
  assume "\<not> length h \<le> current"
    and "markPhase_children (children (h ! current)) h rest = Inr x2"
    and "(h1, y) = x2" and "(g1, ws1) = y"
  then have r: "markPhase_children (children (h ! current)) h rest = Inr (h1, g1, ws1)"
    by simp
  from markPhase_children_measure[OF r] whites_darken[of Black h1 current]
  show "((set_color h1 current Black, g1), h, current # rest)
          \<in> measure (\<lambda>(h, g). whites h + length g)"
    by simp
qed

termination markPhase_loop
  by (rule markPhase_loop_total)

section \<open>What a barrier call does\<close>

lemma dijkstra_barrier_result:
  "dijkstraWriteBarrier h obj child = Inr h' \<longleftrightarrow>
     obj < length h \<and> child < length h \<and>
     h' = append_child (if color (h ! obj) = Black \<and> color (h ! child) = White
                        then set_color h child Gray else h) obj child"
  by (auto simp: dijkstraWriteBarrier_def Let_def)

lemma yuasa_barrier_result:
  "yuasaWriteBarrier h obj child = Inr h' \<longleftrightarrow>
     obj < length h \<and> child < length h \<and>
     h' = append_child (if color (h ! obj) = Gray \<and> color (h ! child) = White
                        then set_color h child Gray else h) obj child"
  by (auto simp: yuasaWriteBarrier_def Let_def)

lemma hybrid_barrier_result:
  "hybridWriteBarrier h obj child = Inr h' \<longleftrightarrow>
     obj < length h \<and> child < length h \<and>
     h' = append_child (if color (h ! child) = White \<and>
                           (color (h ! obj) = Black \<or> color (h ! obj) = Gray)
                        then set_color h child Gray else h) obj child"
  by (auto simp: hybridWriteBarrier_def Let_def)

text \<open>The heap after \<open>child\<close> was shaded, or not, and appended to the children of \<open>obj\<close>.\<close>

lemma shade_append_facts:
  assumes "obj < length h" "child < length h"
    and "h' = append_child (if b then set_color h child Gray else h) obj child"
  shows "length h' = length h"
    and "\<And>q. q < length h \<Longrightarrow> color (h' ! q) = (if b \<and> q = child then Gray else color (h ! q))"
    and "children (h' ! obj) = children (h ! obj) @ [child]"
    and "\<And>q. q \<noteq> obj \<Longrightarrow> children (h' ! q) = children (h ! q)"
    and "\<And>q. id_num (h' ! q) = id_num (h ! q)"
  using assms
  by (simp_all add: length_append_child length_set_color color_append_child color_set_color
      children_append_child children_set_color id_num_append_child id_num_set_color)

lemma shade_append_forward:
  assumes "obj < length h" "child < length h"
    and "h' = append_child (if b then set_color h child Gray else h) obj child"
    and "b \<longrightarrow> color (h ! child) = White"
  shows "\<forall>q < length h. rank (color (h ! q)) \<le> rank (color (h' ! q))"
  using shade_append_facts(2)[OF assms(1,2,3)] assms(4) by simp

lemma second_append:
  assumes "obj < length h" "child < length h"
    and "h1 = append_child (if b then set_color h child Gray else h) obj child"
  shows "length (append_child h1 obj child) = length h1"
    and "map color (append_child h1 obj child) = map color h1"
    and "children (append_child h1 obj child ! obj) = children (h ! obj) @ [child, child]"
    and "\<And>q. q \<noteq> obj \<Longrightarrow> children (append_child h1 obj child ! q) = children (h ! q)"
  using assms
  by (simp_all add: length_append_child length_set_color map_color_append_child
      children_append_child children_set_color)

section \<open>The marking loop: its writes, its net effect, its scan order\<close>

lemma replay_append: "replay h (ws @ ws') = replay (replay h ws) ws'"
  by (induction ws arbitrary: h) auto

lemma forward_append: "forward h (ws @ ws') \<longleftrightarrow> forward h ws \<and> forward (replay h ws) ws'"
  by (induction ws arbitrary: h) auto

lemma scanned_simps:
  "scanned [] = []"
  "scanned ((p, Black) # ws) = p # scanned ws"
  "scanned ((p, Gray) # ws) = scanned ws"
  "scanned ((p, White) # ws) = scanned ws"
  "scanned (ws @ ws') = scanned ws @ scanned ws'"
  by (simp_all add: scanned_def)

lemma rank_le_Black: "rank c \<le> 2"
  by (cases c) simp_all

lemma rank_Black_le: "rank Black \<le> rank c \<longleftrightarrow> c = Black"
  by (cases c) simp_all

lemma distinct_bounded_length:
  assumes "distinct xs" "\<forall>x \<in> set xs. x < (n::nat)"
  shows "length xs \<le> n"
proof -
  have "card (set xs) \<le> card {..<n}"
    using assms(2) by (intro card_mono) auto
  with assms(1) show ?thesis by (simp add: distinct_card)
qed

lemma markPhase_children_spec:
  "markPhase_children cs h g = Inr (h', g', ws) \<Longrightarrow>
   (\<exists>new. g' = g @ new \<and> ws = map (\<lambda>p. (p, Gray)) new \<and> distinct new \<and>
          set new = {c \<in> set cs. color (h ! c) = White} \<and>
          (\<forall>q < length h. color (h' ! q) = (if q \<in> set new then Gray else color (h ! q)))) \<and>
   length h' = length h \<and> (\<forall>c \<in> set cs. c < length h) \<and>
   (\<forall>q. children (h' ! q) = children (h ! q) \<and> id_num (h' ! q) = id_num (h ! q)) \<and>
   replay h ws = h' \<and> forward h ws"
proof (induction cs arbitrary: h g h' g' ws)
  case Nil
  then show ?case by auto
next
  case (Cons c cs)
  show ?case
  proof (cases "length h \<le> c")
    case True
    with Cons.prems show ?thesis by simp
  next
    case inb: False
    show ?thesis
    proof (cases "color (h ! c) = White")
      case True
      let ?h1 = "set_color h c Gray"
      from True inb Cons.prems obtain ws' where
        r: "markPhase_children cs ?h1 (g @ [c]) = Inr (h', g', ws')" and ws: "ws = (c, Gray) # ws'"
        by (auto split: sum.splits)
      from Cons.IH[OF r] obtain new where
        new: "g' = (g @ [c]) @ new" "ws' = map (\<lambda>p. (p, Gray)) new" "distinct new"
          "set new = {x \<in> set cs. color (?h1 ! x) = White}"
          "\<forall>q < length ?h1. color (h' ! q) = (if q \<in> set new then Gray else color (?h1 ! q))"
        and rest: "length h' = length ?h1" "\<forall>x \<in> set cs. x < length ?h1"
          "\<forall>q. children (h' ! q) = children (?h1 ! q) \<and> id_num (h' ! q) = id_num (?h1 ! q)"
          "replay ?h1 ws' = h'" "forward ?h1 ws'"
        by blast
      have cnew: "c \<notin> set new"
        using new(4) inb by (auto simp: color_set_color)
      have "g' = g @ (c # new)" using new(1) by simp
      moreover have "ws = map (\<lambda>p. (p, Gray)) (c # new)" using ws new(2) by simp
      moreover have "distinct (c # new)" using cnew new(3) by simp
      moreover have "set (c # new) = {x \<in> set (c # cs). color (h ! x) = White}"
        using new(4) True inb by (auto simp: color_set_color split: if_splits)
      moreover have "\<forall>q < length h. color (h' ! q) = (if q \<in> set (c # new) then Gray else color (h ! q))"
        using new(5) inb cnew by (auto simp: color_set_color length_set_color)
      ultimately have "\<exists>new. g' = g @ new \<and> ws = map (\<lambda>p. (p, Gray)) new \<and> distinct new \<and>
          set new = {x \<in> set (c # cs). color (h ! x) = White} \<and>
          (\<forall>q < length h. color (h' ! q) = (if q \<in> set new then Gray else color (h ! q)))"
        by blast
      moreover have "forward h ws" using ws rest(5) inb True by simp
      ultimately show ?thesis
        using rest inb ws by (simp add: length_set_color children_set_color id_num_set_color)
    next
      case False
      with inb Cons.prems have r: "markPhase_children cs h g = Inr (h', g', ws)" by simp
      from Cons.IH[OF r] False inb show ?thesis by auto
    qed
  qed
qed

lemma markPhase_children_returns:
  "\<forall>c \<in> set cs. c < length h \<Longrightarrow> \<exists>h' g' ws. markPhase_children cs h g = Inr (h', g', ws)"
proof (induction cs arbitrary: h g)
  case Nil
  then show ?case by simp
next
  case (Cons c cs)
  show ?case
  proof (cases "color (h ! c) = White")
    case True
    have "\<forall>x \<in> set cs. x < length (set_color h c Gray)"
      using Cons.prems by (simp add: length_set_color)
    from Cons.IH[OF this, of "g @ [c]"] True Cons.prems show ?thesis by auto
  next
    case False
    with Cons.IH[of h g] Cons.prems show ?thesis by auto
  qed
qed

lemma markPhase_loop_spec:
  "markPhase_loop h g = Inr (h', ws) \<Longrightarrow>
   length h' = length h \<and>
   (\<forall>q. children (h' ! q) = children (h ! q) \<and> id_num (h' ! q) = id_num (h ! q)) \<and>
   (\<forall>q < length h. rank (color (h ! q)) \<le> rank (color (h' ! q))) \<and>
   replay h ws = h' \<and> forward h ws"
proof (induction h g arbitrary: h' ws rule: markPhase_loop.induct)
  case (1 h)
  then show ?case by simp
next
  case (2 h current rest)
  from "2.prems" have inb: "current < length h"
    by (auto split: if_splits)
  from "2.prems" inb obtain h1 g1 ws1 ws2 where
    c: "markPhase_children (children (h ! current)) h rest = Inr (h1, g1, ws1)"
    and l: "markPhase_loop (set_color h1 current Black) g1 = Inr (h', ws2)"
    and ws: "ws = ws1 @ (current, Black) # ws2"
    by (auto split: sum.splits)
  note cs = markPhase_children_spec[OF c]
  from cs obtain new where
    col: "\<forall>q < length h. color (h1 ! q) = (if q \<in> set new then Gray else color (h ! q))"
    and newW: "set new = {c \<in> set (children (h ! current)). color (h ! c) = White}"
    by blast
  from cs have len1: "length h1 = length h" and rep1: "replay h ws1 = h1" and fw1: "forward h ws1"
    and ch1: "\<forall>q. children (h1 ! q) = children (h ! q) \<and> id_num (h1 ! q) = id_num (h ! q)"
    by blast+
  let ?h2 = "set_color h1 current Black"
  have ih: "length h' = length ?h2 \<and>
   (\<forall>q. children (h' ! q) = children (?h2 ! q) \<and> id_num (h' ! q) = id_num (?h2 ! q)) \<and>
   (\<forall>q < length ?h2. rank (color (?h2 ! q)) \<le> rank (color (h' ! q))) \<and>
   replay ?h2 ws2 = h' \<and> forward ?h2 ws2"
    using inb by (intro "2.IH"[OF _ c refl refl l]) simp
  from ih have ih_len: "length h' = length ?h2"
    and ih_ch: "\<forall>q. children (h' ! q) = children (?h2 ! q) \<and> id_num (h' ! q) = id_num (?h2 ! q)"
    and ih_mono: "\<forall>q < length ?h2. rank (color (?h2 ! q)) \<le> rank (color (h' ! q))"
    and ih_rep: "replay ?h2 ws2 = h'" and ih_fw: "forward ?h2 ws2"
    by blast+
  have mono1: "\<forall>q < length h. rank (color (h ! q)) \<le> rank (color (h1 ! q))"
    using col newW by auto
  have mono2: "\<forall>q < length h. rank (color (h1 ! q)) \<le> rank (color (?h2 ! q))"
    using inb len1 by (auto simp: color_set_color rank_le_Black)
  have mono: "\<forall>q < length h. rank (color (h ! q)) \<le> rank (color (h' ! q))"
  proof (intro allI impI)
    fix q assume q: "q < length h"
    have "rank (color (h ! q)) \<le> rank (color (h1 ! q))" using mono1 q by simp
    also have "\<dots> \<le> rank (color (?h2 ! q))" using mono2 q by simp
    also have "\<dots> \<le> rank (color (h' ! q))" using ih_mono q len1 by (simp add: length_set_color)
    finally show "rank (color (h ! q)) \<le> rank (color (h' ! q))" .
  qed
  have fw: "forward h ws"
    using fw1 rep1 ih_fw inb len1 by (simp add: ws forward_append rank_le_Black)
  have rep: "replay h ws = h'"
    using rep1 ih_rep by (simp add: ws replay_append)
  show ?case
    using ih_len ih_ch len1 ch1 mono fw rep
    by (simp add: length_set_color children_set_color id_num_set_color)
qed

lemma markPhase_loop_blackens:
  "markPhase_loop h g = Inr (h', ws) \<Longrightarrow> \<forall>p \<in> set g. color (h' ! p) = Black"
proof (induction h g arbitrary: h' ws rule: markPhase_loop.induct)
  case (1 h)
  then show ?case by simp
next
  case (2 h current rest)
  from "2.prems" have inb: "current < length h"
    by (auto split: if_splits)
  from "2.prems" inb obtain h1 g1 ws1 ws2 where
    c: "markPhase_children (children (h ! current)) h rest = Inr (h1, g1, ws1)"
    and l: "markPhase_loop (set_color h1 current Black) g1 = Inr (h', ws2)"
    by (auto split: sum.splits)
  from markPhase_children_spec[OF c] have len1: "length h1 = length h" and "set rest \<subseteq> set g1"
    by auto
  moreover have "\<forall>p \<in> set g1. color (h' ! p) = Black"
    using inb by (intro "2.IH"[OF _ c refl refl l]) simp
  moreover from markPhase_loop_spec[OF l] inb len1
  have "rank (color (set_color h1 current Black ! current)) \<le> rank (color (h' ! current))"
    by (simp add: length_set_color)
  then have "color (h' ! current) = Black"
    using inb len1 by (simp add: color_set_color rank_Black_le[simplified])
  ultimately show ?case by auto
qed

lemma markPhase_loop_scanned:
  "markPhase_loop h g = Inr (h', ws) \<Longrightarrow> distinct g \<Longrightarrow>
   \<forall>p \<in> set g. p < length h \<and> color (h ! p) = Gray \<Longrightarrow>
   distinct (scanned ws) \<and> (\<forall>p \<in> set (scanned ws). p < length h \<and> color (h ! p) \<noteq> Black)"
proof (induction h g arbitrary: h' ws rule: markPhase_loop.induct)
  case (1 h)
  then show ?case by (simp add: scanned_simps)
next
  case (2 h current rest)
  from "2.prems" have inb: "current < length h" and curG: "color (h ! current) = Gray"
    and cur_rest: "current \<notin> set rest" and drest: "distinct rest"
    and restG: "\<forall>p \<in> set rest. p < length h \<and> color (h ! p) = Gray"
    by auto
  from "2.prems"(1) inb obtain h1 g1 ws1 ws2 where
    c: "markPhase_children (children (h ! current)) h rest = Inr (h1, g1, ws1)"
    and l: "markPhase_loop (set_color h1 current Black) g1 = Inr (h', ws2)"
    and ws: "ws = ws1 @ (current, Black) # ws2"
    by (auto split: sum.splits)
  note cs = markPhase_children_spec[OF c]
  from cs obtain new where g1: "g1 = rest @ new" and ws1: "ws1 = map (\<lambda>p. (p, Gray)) new"
    and dnew: "distinct new"
    and newW: "set new = {c \<in> set (children (h ! current)). color (h ! c) = White}"
    and col: "\<forall>q < length h. color (h1 ! q) = (if q \<in> set new then Gray else color (h ! q))"
    by blast
  from cs have len1: "length h1 = length h" and chb: "\<forall>c \<in> set (children (h ! current)). c < length h"
    by blast+
  let ?h2 = "set_color h1 current Black"
  have cur_new: "current \<notin> set new" using newW curG by auto
  have "distinct g1"
    using g1 drest dnew newW restG by auto
  moreover have "\<forall>p \<in> set g1. p < length ?h2 \<and> color (?h2 ! p) = Gray"
  proof
    fix p assume "p \<in> set g1"
    then have pin: "p \<in> set rest \<or> p \<in> set new" using g1 by auto
    then have plen: "p < length h" using restG newW chb by auto
    have pcur: "p \<noteq> current" using pin cur_rest cur_new by auto
    have "color (h1 ! p) = Gray" using pin col plen restG by auto
    then show "p < length ?h2 \<and> color (?h2 ! p) = Gray"
      using plen pcur inb len1 by (simp add: length_set_color color_set_color)
  qed
  ultimately have ih: "distinct (scanned ws2) \<and>
      (\<forall>p \<in> set (scanned ws2). p < length ?h2 \<and> color (?h2 ! p) \<noteq> Black)"
    using inb by (intro "2.IH"[OF _ c refl refl l]) simp_all
  have sc1: "scanned ws1 = []"
    unfolding ws1 scanned_def by (induction new) simp_all
  have sc: "scanned ws = current # scanned ws2"
    by (simp add: ws scanned_simps sc1)
  have notcur: "current \<notin> set (scanned ws2)"
    using ih inb len1 by (auto simp: color_set_color)
  have "\<forall>p \<in> set (scanned ws2). p < length h \<and> color (h ! p) \<noteq> Black"
  proof
    fix p assume p: "p \<in> set (scanned ws2)"
    with ih have plen: "p < length h" and pc: "color (?h2 ! p) \<noteq> Black"
      using len1 by (auto simp: length_set_color)
    have "p \<noteq> current" using p notcur by auto
    then have "color (h1 ! p) \<noteq> Black" using pc inb len1 by (simp add: color_set_color)
    then have "color (h ! p) \<noteq> Black" using col plen newW by (auto split: if_splits)
    with plen show "p < length h \<and> color (h ! p) \<noteq> Black" by simp
  qed
  with sc notcur ih inb curG show ?case by simp
qed

lemma markPhase_spec:
  assumes "markPhase h root = Inr (h', ws)"
  shows "root < length h" and "length h' = length h"
    and "\<forall>q. children (h' ! q) = children (h ! q) \<and> id_num (h' ! q) = id_num (h ! q)"
    and "replay h ws = h'"
    and "color (h' ! root) = Black"
    and "\<forall>q < length h. rank (color (h ! q)) \<le> rank (color (h' ! q))"
    and "color (h ! root) \<noteq> Black \<Longrightarrow> forward h ws"
    and "\<exists>ws'. ws = (root, Gray) # ws' \<and> forward (set_color h root Gray) ws'"
    and "distinct (scanned ws)"
proof -
  from assms have inb: "root < length h" by (auto simp: markPhase_def split: if_splits)
  let ?h0 = "set_color h root Gray"
  from assms inb obtain ws' where l: "markPhase_loop ?h0 [root] = Inr (h', ws')"
    and ws: "ws = (root, Gray) # ws'"
    by (auto simp: markPhase_def split: sum.splits)
  note sp = markPhase_loop_spec[OF l]
  from sp have mono0: "\<forall>q < length h. rank (color (?h0 ! q)) \<le> rank (color (h' ! q))"
    and fw0: "forward ?h0 ws'" and rep0: "replay ?h0 ws' = h'"
    by (simp_all add: length_set_color)
  from markPhase_loop_blackens[OF l] have rb: "color (h' ! root) = Black" by simp
  show "root < length h" by (rule inb)
  show "length h' = length h" using sp by (simp add: length_set_color)
  show "\<forall>q. children (h' ! q) = children (h ! q) \<and> id_num (h' ! q) = id_num (h ! q)"
    using sp by (simp add: children_set_color id_num_set_color)
  show "replay h ws = h'" using rep0 by (simp add: ws)
  show "color (h' ! root) = Black" by (rule rb)
  show "\<forall>q < length h. rank (color (h ! q)) \<le> rank (color (h' ! q))"
  proof (intro allI impI)
    fix q assume q: "q < length h"
    show "rank (color (h ! q)) \<le> rank (color (h' ! q))"
    proof (cases "q = root")
      case True
      then show ?thesis using rb by (simp add: rank_le_Black)
    next
      case False
      then show ?thesis using mono0 q inb by (auto simp: color_set_color)
    qed
  qed
  show "forward h ws" if "color (h ! root) \<noteq> Black"
  proof -
    from that have "rank (color (h ! root)) \<le> rank Gray" by (cases "color (h ! root)") simp_all
    then show ?thesis using fw0 inb by (simp add: ws)
  qed
  show "\<exists>ws'. ws = (root, Gray) # ws' \<and> forward (set_color h root Gray) ws'"
    using ws fw0 by blast
  have "distinct (scanned ws')"
    using markPhase_loop_scanned[OF l] inb by (simp add: length_set_color color_set_color)
  then show "distinct (scanned ws)" by (simp add: ws scanned_simps)
qed

lemma markPhase_scanned_bound:
  assumes "markPhase h root = Inr (h', ws)"
  shows "length (scanned ws) \<le> length h"
proof -
  from assms have inb: "root < length h" by (auto simp: markPhase_def split: if_splits)
  from assms inb obtain ws' where l: "markPhase_loop (set_color h root Gray) [root] = Inr (h', ws')"
    and ws: "ws = (root, Gray) # ws'"
    by (auto simp: markPhase_def split: sum.splits)
  from markPhase_loop_scanned[OF l] inb
  have "distinct (scanned ws')" "\<forall>p \<in> set (scanned ws'). p < length h"
    by (simp_all add: length_set_color color_set_color)
  from distinct_bounded_length[OF this] show ?thesis by (simp add: ws scanned_simps)
qed

section \<open>Reachability and the tri-colour invariant\<close>

lemma reachable_in_closed:
  assumes "closed_in h R" "root \<in> R"
  shows "reachable h root p \<Longrightarrow> p \<in> R"
  by (induction rule: reachable.induct) (use assms in \<open>auto simp: closed_in_def\<close>)

lemma reachable_same_graph:
  assumes "length h' = length h" "\<forall>q. children (h' ! q) = children (h ! q)"
  shows "reachable h' root p \<longleftrightarrow> reachable h root p"
proof
  show "reachable h' root p \<Longrightarrow> reachable h root p"
    by (induction rule: reachable.induct)
      (use assms in \<open>auto intro: reachable.intros\<close>)
  show "reachable h root p \<Longrightarrow> reachable h' root p"
    by (induction rule: reachable.induct)
      (use assms in \<open>auto intro: reachable.intros\<close>)
qed

lemma markPhase_loop_drains:
  "closed_in h R \<Longrightarrow> tricolour h R g \<Longrightarrow>
   \<exists>h' ws. markPhase_loop h g = Inr (h', ws) \<and> tricolour h' R []"
proof (induction h g rule: markPhase_loop.induct)
  case (1 h)
  then show ?case by simp
next
  case (2 h current rest)
  from "2.prems" have curR: "current \<in> R" and restR: "set rest \<subseteq> R"
    by (auto simp: tricolour_def)
  from curR "2.prems"(1) have inb: "current < length h"
    and chR: "set (children (h ! current)) \<subseteq> R"
    by (auto simp: closed_in_def)
  have "\<forall>c \<in> set (children (h ! current)). c < length h"
    using chR "2.prems"(1) by (auto simp: closed_in_def)
  from markPhase_children_returns[OF this, of rest] obtain h1 g1 ws1 where
    c: "markPhase_children (children (h ! current)) h rest = Inr (h1, g1, ws1)"
    by blast
  note cs = markPhase_children_spec[OF c]
  from cs obtain new where g1: "g1 = rest @ new"
    and newW: "set new = {c \<in> set (children (h ! current)). color (h ! c) = White}"
    and col: "\<forall>q < length h. color (h1 ! q) = (if q \<in> set new then Gray else color (h ! q))"
    by blast
  from cs have len1: "length h1 = length h"
    and ch1: "\<forall>q. children (h1 ! q) = children (h ! q)"
    by blast+
  let ?h2 = "set_color h1 current Black"
  have Rlen: "\<forall>p \<in> R. p < length h" using "2.prems"(1) by (simp add: closed_in_def)
  have col2: "\<forall>q \<in> R. color (?h2 ! q) =
      (if q = current then Black else if q \<in> set new then Gray else color (h ! q))"
    using col Rlen inb len1 by (simp add: color_set_color)
  have ch2: "\<forall>q. children (?h2 ! q) = children (h ! q)"
    using ch1 by (simp add: children_set_color)
  have closed2: "closed_in ?h2 R"
    using "2.prems"(1) len1 ch2 by (simp add: closed_in_def length_set_color)
  have tri2: "tricolour ?h2 R g1"
    unfolding tricolour_def
  proof (intro conjI ballI impI)
    show "set g1 \<subseteq> R" using g1 restR newW chR by auto
  next
    fix p assume p: "p \<in> R" "color (?h2 ! p) = Gray"
    then have pc: "p \<noteq> current" using col2 by auto
    show "p \<in> set g1"
    proof (cases "p \<in> set new")
      case True
      then show ?thesis using g1 by simp
    next
      case False
      then have "color (h ! p) = Gray" using p pc col2 by auto
      then have "p \<in> set (current # rest)" using "2.prems"(2) p(1) by (simp add: tricolour_def)
      then show ?thesis using pc g1 by simp
    qed
  next
    fix p c assume p: "p \<in> R" "color (?h2 ! p) = Black" and c: "c \<in> set (children (?h2 ! p))"
    from c have c': "c \<in> set (children (h ! p))" using ch2 by simp
    have cR: "c \<in> R" using c' p(1) "2.prems"(1) by (auto simp: closed_in_def)
    have "color (h ! c) = White \<longrightarrow> c \<in> set new"
    proof (cases "p = current")
      case True
      then show ?thesis using newW c' by simp
    next
      case False
      then have "color (h ! p) = Black" using p col2 by (auto split: if_splits)
      then show ?thesis using "2.prems"(2) p(1) c' by (auto simp: tricolour_def)
    qed
    then show "color (?h2 ! c) \<noteq> White" using col2 cR by auto
  qed
  from "2.IH"[OF _ c refl refl closed2 tri2] inb obtain h' ws2 where
    l: "markPhase_loop ?h2 g1 = Inr (h', ws2)" and t: "tricolour h' R []"
    by auto
  from c l inb have "markPhase_loop h (current # rest) = Inr (h', ws1 @ (current, Black) # ws2)"
    by simp
  with t show ?case by blast
qed

lemma markPhase_marks_reachable:
  assumes "\<forall>p. reachable h root p \<longrightarrow> p < length h \<and> color (h ! p) = White"
  shows "\<exists>h' ws. markPhase h root = Inr (h', ws) \<and>
           (\<forall>p. reachable h root p \<longrightarrow> color (h' ! p) = Black)"
proof -
  let ?R = "{p. reachable h root p}"
  let ?h0 = "set_color h root Gray"
  from assms reachable_root[of h root] have inb: "root < length h" by blast
  have cl: "closed_in h ?R"
    using assms by (auto simp: closed_in_def intro: reachable_child)
  have cl0: "closed_in ?h0 ?R"
    using cl by (simp add: closed_in_def length_set_color children_set_color)
  have col0: "\<forall>p \<in> ?R. color (?h0 ! p) = (if p = root then Gray else White)"
    using assms inb by (simp add: color_set_color)
  have tri0: "tricolour ?h0 ?R [root]"
    unfolding tricolour_def using col0 reachable_root[of h root] by auto
  from markPhase_loop_drains[OF cl0 tri0] obtain h' ws where
    l: "markPhase_loop ?h0 [root] = Inr (h', ws)" and t: "tricolour h' ?R []"
    by blast
  from l inb have m: "markPhase h root = Inr (h', (root, Gray) # ws)"
    by (simp add: markPhase_def)
  note sp = markPhase_spec[OF m]
  have "reachable h root p \<Longrightarrow> color (h' ! p) = Black" for p
  proof (induction rule: reachable.induct)
    case reachable_root
    show ?case by (rule sp(5))
  next
    case (reachable_child p c)
    have cR: "c \<in> ?R" using reachable.reachable_child[OF reachable_child(1,2,3)] by simp
    have "c \<in> set (children (h' ! p))" using reachable_child(3) sp(3) by simp
    with t reachable_child(1,4) have "color (h' ! c) \<noteq> White"
      by (auto simp: tricolour_def)
    moreover from t cR have "color (h' ! c) \<noteq> Gray" by (auto simp: tricolour_def)
    ultimately show ?case by (cases "color (h' ! c)") simp_all
  qed
  with m show ?thesis by blast
qed

section \<open>The traversal of the sweeper\<close>

lemma collectAll_spec:
  "(collectAll n h p acc = Some (Inr acc') \<longrightarrow>
      p < length h \<and>
      (\<exists>xs. acc' = acc @ xs \<and> set (children (h ! p)) \<subseteq> set xs \<and>
            (\<forall>x \<in> set xs. reachable h p x) \<and>
            (\<forall>x \<in> set xs. x < length h \<and> set (children (h ! x)) \<subseteq> set xs)))"
  "(collectAll_children n h cs acc = Some (Inr acc') \<longrightarrow>
      (\<exists>xs. acc' = acc @ xs \<and> set cs \<subseteq> set xs \<and>
            (\<forall>x \<in> set xs. \<exists>c \<in> set cs. reachable h c x) \<and>
            (\<forall>x \<in> set xs. x < length h \<and> set (children (h ! x)) \<subseteq> set xs)))"
proof (induction n h p acc and n h cs acc arbitrary: acc' and acc'
    rule: collectAll_collectAll_children.induct)
  case (1 h obj allObjects)
  then show ?case by simp
next
  case (2 n h obj allObjects)
  show ?case
  proof (intro impI)
    assume a: "collectAll (Suc n) h obj allObjects = Some (Inr acc')"
    then have inb: "obj < length h" by (auto split: if_splits)
    with a have "collectAll_children n h (children (h ! obj)) allObjects = Some (Inr acc')"
      by simp
    with "2.IH"[of acc'] inb obtain xs where
      xs: "acc' = allObjects @ xs" "set (children (h ! obj)) \<subseteq> set xs"
        "\<forall>x \<in> set xs. \<exists>c \<in> set (children (h ! obj)). reachable h c x"
        "\<forall>x \<in> set xs. x < length h \<and> set (children (h ! x)) \<subseteq> set xs"
      by auto
    have "\<forall>x \<in> set xs. reachable h obj x"
    proof
      fix x assume "x \<in> set xs"
      with xs(3) obtain c where c: "c \<in> set (children (h ! obj))" "reachable h c x" by blast
      from c(2) show "reachable h obj x"
      proof (induction rule: reachable.induct)
        case reachable_root
        show ?case using reachable.reachable_child[OF reachable.reachable_root inb c(1)] .
      next
        case (reachable_child p c')
        then show ?case using reachable.reachable_child by blast
      qed
    qed
    with xs inb show "obj < length h \<and>
      (\<exists>xs. acc' = allObjects @ xs \<and> set (children (h ! obj)) \<subseteq> set xs \<and>
            (\<forall>x \<in> set xs. reachable h obj x) \<and>
            (\<forall>x \<in> set xs. x < length h \<and> set (children (h ! x)) \<subseteq> set xs))"
      by blast
  qed
next
  case (3 n h allObjects)
  then show ?case by simp
next
  case (4 n h child cs allObjects)
  show ?case
  proof (intro impI)
    assume a: "collectAll_children n h (child # cs) allObjects = Some (Inr acc')"
    then obtain all1 where
      r1: "collectAll n h child (allObjects @ [child]) = Some (Inr all1)"
      and r2: "collectAll_children n h cs all1 = Some (Inr acc')"
      by (auto split: option.splits sum.splits)
    from "4.IH"(1)[of all1] r1 obtain xs1 where
      inb: "child < length h" and
      xs1: "all1 = (allObjects @ [child]) @ xs1" "set (children (h ! child)) \<subseteq> set xs1"
        "\<forall>x \<in> set xs1. reachable h child x"
        "\<forall>x \<in> set xs1. x < length h \<and> set (children (h ! x)) \<subseteq> set xs1"
      by auto
    from "4.IH"(2)[OF r1 refl, of acc'] r2 obtain xs2 where
      xs2: "acc' = all1 @ xs2" "set cs \<subseteq> set xs2"
        "\<forall>x \<in> set xs2. \<exists>c \<in> set cs. reachable h c x"
        "\<forall>x \<in> set xs2. x < length h \<and> set (children (h ! x)) \<subseteq> set xs2"
      by auto
    let ?xs = "child # xs1 @ xs2"
    have "acc' = allObjects @ ?xs" using xs1(1) xs2(1) by simp
    moreover have "set (child # cs) \<subseteq> set ?xs" using xs2(2) by auto
    moreover have "\<forall>x \<in> set ?xs. \<exists>c \<in> set (child # cs). reachable h c x"
      using xs1(3) xs2(3) reachable_root[of h child] by auto
    moreover have "\<forall>x \<in> set ?xs. x < length h \<and> set (children (h ! x)) \<subseteq> set ?xs"
      using inb xs1(2,4) xs2(4) by auto
    ultimately show "\<exists>xs. acc' = allObjects @ xs \<and> set (child # cs) \<subseteq> set xs \<and>
            (\<forall>x \<in> set xs. \<exists>c \<in> set (child # cs). reachable h c x) \<and>
            (\<forall>x \<in> set xs. x < length h \<and> set (children (h ! x)) \<subseteq> set xs)"
      by blast
  qed
qed

lemma collectAll_root_reachable:
  assumes "collectAll n h root [root] = Some (Inr allObjects)"
  shows "set allObjects = {p. reachable h root p} \<and> (\<forall>p \<in> set allObjects. p < length h)"
proof -
  from collectAll_spec(1)[of n h root "[root]" allObjects] assms obtain xs where
    inb: "root < length h" and
    xs: "allObjects = [root] @ xs" "set (children (h ! root)) \<subseteq> set xs"
        "\<forall>x \<in> set xs. reachable h root x"
        "\<forall>x \<in> set xs. x < length h \<and> set (children (h ! x)) \<subseteq> set xs"
    by auto
  have sub: "set allObjects \<subseteq> {p. reachable h root p}"
    using xs(1,3) reachable_root[of h root] by auto
  have "reachable h root p \<Longrightarrow> p \<in> set allObjects" for p
  proof (induction rule: reachable.induct)
    case reachable_root
    show ?case using xs(1) by simp
  next
    case (reachable_child p c)
    then show ?case using xs by auto
  qed
  with sub inb xs show ?thesis by auto
qed

lemma collectAll_more_depth:
  "(collectAll n h p acc = Some r \<longrightarrow> collectAll (n + k) h p acc = Some r)"
  "(collectAll_children n h cs acc = Some r \<longrightarrow> collectAll_children (n + k) h cs acc = Some r)"
proof (induction n h p acc and n h cs acc arbitrary: r and r
    rule: collectAll_collectAll_children.induct)
  case (1 h obj allObjects)
  then show ?case by simp
next
  case (2 n h obj allObjects)
  then show ?case by auto
next
  case (3 n h allObjects)
  then show ?case by simp
next
  case (4 n h child cs allObjects)
  show ?case
  proof
    assume a: "collectAll_children n h (child # cs) allObjects = Some r"
    then obtain r1 where r1: "collectAll n h child (allObjects @ [child]) = Some r1"
      by (auto split: option.splits)
    with "4.IH"(1)[of r1] have r1': "collectAll (n + k) h child (allObjects @ [child]) = Some r1"
      by simp
    show "collectAll_children (n + k) h (child # cs) allObjects = Some r"
    proof (cases r1)
      case (Inl e)
      with a r1 have "r = Inl e" by simp
      with r1' Inl show ?thesis by simp
    next
      case (Inr all1)
      with a r1 have "collectAll_children n h cs all1 = Some r" by simp
      with "4.IH"(2)[OF r1 Inr, of r] have "collectAll_children (n + k) h cs all1 = Some r"
        by simp
      with r1' Inr show ?thesis by simp
    qed
  qed
qed

lemma collectAll_returns:
  assumes cl: "closed_in h R"
    and rk: "\<forall>p \<in> R. \<forall>c \<in> set (children (h ! p)). (rk c :: nat) < rk p"
  shows "p \<in> R \<Longrightarrow> \<exists>acc'. collectAll (Suc (rk p)) h p acc = Some (Inr acc')"
proof (induction "rk p" arbitrary: p acc rule: less_induct)
  case less
  from less.prems cl have inb: "p < length h" and chR: "set (children (h ! p)) \<subseteq> R"
    by (auto simp: closed_in_def)
  have "set cs \<subseteq> set (children (h ! p)) \<Longrightarrow>
        \<exists>acc'. collectAll_children (rk p) h cs a = Some (Inr acc')" for cs a
  proof (induction cs arbitrary: a)
    case Nil
    then show ?case by simp
  next
    case (Cons c cs)
    then have c: "c \<in> set (children (h ! p))" by simp
    with rk less.prems have lt: "rk c < rk p" by blast
    from c chR have "c \<in> R" by blast
    from less.hyps[OF lt this, of "a @ [c]"] obtain a1 where
      "collectAll (Suc (rk c)) h c (a @ [c]) = Some (Inr a1)" by blast
    with collectAll_more_depth(1)[of "Suc (rk c)" h c "a @ [c]" "Inr a1" "rk p - Suc (rk c)"] lt
    have "collectAll (rk p) h c (a @ [c]) = Some (Inr a1)" by simp
    moreover from Cons obtain a2 where "collectAll_children (rk p) h cs a1 = Some (Inr a2)"
      by auto
    ultimately show ?case by simp
  qed
  from this[of "children (h ! p)" acc] inb show ?case by simp
qed

lemma sweepPhase_report:
  assumes "snd (sweepPhase n h root) = Some (Inr rep)"
  shows "\<exists>allObjects. collectAll n h root [root] = Some (Inr allObjects) \<and>
           set allObjects = {p. reachable h root p} \<and>
           (\<forall>p \<in> set allObjects. p < length h) \<and>
           rep = map (\<lambda>p. sweep_line (h ! p)) allObjects"
proof -
  from assms obtain allObjects where c: "collectAll n h root [root] = Some (Inr allObjects)"
    and rep: "rep = map (\<lambda>p. sweep_line (h ! p)) allObjects"
    by (auto simp: sweepPhase_def split: option.splits sum.splits)
  from collectAll_root_reachable[OF c] c rep show ?thesis by blast
qed

text \<open>
  On a graph with a cycle below the root the traversal does not return, whatever the
  depth bound and whatever the colours: here for two objects that point to each
  other, as in \<open>cycle_demo\<close>.
\<close>

lemma collectAll_two_cycle:
  assumes "length h = 2" "children (h ! 0) = [1, 0]" "children (h ! 1) = [0]"
  shows "collectAll n h 0 acc = None \<and> collectAll n h 1 acc = None"
proof (induction n arbitrary: acc)
  case 0
  show ?case by simp
next
  case (Suc n)
  have "collectAll (Suc n) h 0 acc = None"
    using Suc[of "acc @ [1]"] assms by simp
  moreover have "collectAll (Suc n) h 1 acc = None"
    using Suc[of "acc @ [0]"] assms by simp
  ultimately show ?case by simp
qed

lemma sweepPhase_cycle_demo:
  "sweepPhase n cycle_demo 0 = (cycle_demo, None)"
  "sweepPhase n [new_object 1 Black [1, 0], new_object 2 Black [0]] 0
     = ([new_object 1 Black [1, 0], new_object 2 Black [0]], None)"
  by (simp_all add: sweepPhase_def collectAll_two_cycle cycle_demo_def new_object_def)

section \<open>The recursive marker\<close>

lemma marked_by_refl: "marked_by h h []"
  by (simp add: marked_by_def scanned_simps)

lemma marked_by_trans:
  assumes a: "marked_by h h1 ws1" and b: "marked_by h1 h2 ws2"
  shows "marked_by h h2 (ws1 @ ws2)"
proof -
  from a have a_len: "length h1 = length h"
    and a_ch: "\<forall>q. children (h1 ! q) = children (h ! q) \<and> id_num (h1 ! q) = id_num (h ! q)"
    and a_rep: "replay h ws1 = h1" and a_fw: "forward h ws1" and a_d: "distinct (scanned ws1)"
    and a_fr: "\<forall>q < length h. color (h ! q) \<noteq> White \<longrightarrow> color (h1 ! q) = color (h ! q)"
    and a_sc: "\<forall>q \<in> set (scanned ws1). q < length h \<and> color (h ! q) = White \<and> color (h1 ! q) = Black"
    by (simp_all add: marked_by_def)
  from b have b_len: "length h2 = length h1"
    and b_ch: "\<forall>q. children (h2 ! q) = children (h1 ! q) \<and> id_num (h2 ! q) = id_num (h1 ! q)"
    and b_rep: "replay h1 ws2 = h2" and b_fw: "forward h1 ws2" and b_d: "distinct (scanned ws2)"
    and b_fr: "\<forall>q < length h1. color (h1 ! q) \<noteq> White \<longrightarrow> color (h2 ! q) = color (h1 ! q)"
    and b_sc: "\<forall>q \<in> set (scanned ws2). q < length h1 \<and> color (h1 ! q) = White \<and> color (h2 ! q) = Black"
    by (simp_all add: marked_by_def)
  have fr: "\<forall>q < length h. color (h ! q) \<noteq> White \<longrightarrow> color (h2 ! q) = color (h ! q)"
    using a_fr b_fr a_len by auto
  have disj: "set (scanned ws1) \<inter> set (scanned ws2) = {}"
    using a_sc b_sc by fastforce
  have sc1: "\<forall>q \<in> set (scanned ws1). q < length h \<and> color (h ! q) = White \<and> color (h2 ! q) = Black"
    using a_sc b_fr a_len by auto
  have sc2: "\<forall>q \<in> set (scanned ws2). q < length h \<and> color (h ! q) = White \<and> color (h2 ! q) = Black"
  proof
    fix q assume q: "q \<in> set (scanned ws2)"
    with b_sc a_len have ql: "q < length h" and w1: "color (h1 ! q) = White" and b2: "color (h2 ! q) = Black"
      by auto
    from a_fr ql w1 have "color (h ! q) = White" by force
    with ql b2 show "q < length h \<and> color (h ! q) = White \<and> color (h2 ! q) = Black" by simp
  qed
  show ?thesis
    unfolding marked_by_def
    using a_len b_len a_ch b_ch a_rep b_rep a_fw b_fw a_d b_d fr disj sc1 sc2
    by (simp add: replay_append forward_append scanned_simps) blast
qed

lemma markObject_spec:
  "(markObject n h p = Some (Inr (h', ws)) \<longrightarrow> p < length h \<and> marked_by h h' ws)"
  "(markObject_children n h cs = Some (Inr (h', ws)) \<longrightarrow>
      (\<forall>c \<in> set cs. c < length h) \<and> marked_by h h' ws)"
proof (induction n h p and n h cs arbitrary: h' ws and h' ws
    rule: markObject_markObject_children.induct)
  case (1 h obj)
  then show ?case by simp
next
  case (2 n h obj)
  show ?case
  proof
    assume a: "markObject (Suc n) h obj = Some (Inr (h', ws))"
    then have inb: "obj < length h" by (auto split: if_splits)
    show "obj < length h \<and> marked_by h h' ws"
    proof (cases "color (h ! obj) = White")
      case False
      with a inb show ?thesis by (simp add: marked_by_refl)
    next
      case True
      let ?h1 = "set_color h obj Gray"
      from a inb True obtain h2 ws' where
        r: "markObject_children n ?h1 (children (h ! obj)) = Some (Inr (h2, ws'))"
        and h': "h' = set_color h2 obj Black" and ws: "ws = (obj, Gray) # ws' @ [(obj, Black)]"
        by (auto split: option.splits sum.splits)
      from "2.IH"[of h2 ws'] r inb True have m: "marked_by ?h1 h2 ws'" by simp
      from m have len2: "length h2 = length h"
        and ch2: "\<forall>q. children (h2 ! q) = children (h ! q) \<and> id_num (h2 ! q) = id_num (h ! q)"
        and rep2: "replay ?h1 ws' = h2" and fw2: "forward ?h1 ws'" and d2: "distinct (scanned ws')"
        and fr2: "\<forall>q < length h. color (?h1 ! q) \<noteq> White \<longrightarrow> color (h2 ! q) = color (?h1 ! q)"
        and sc2: "\<forall>q \<in> set (scanned ws'). q < length h \<and> color (?h1 ! q) = White \<and> color (h2 ! q) = Black"
        by (simp_all add: marked_by_def length_set_color children_set_color id_num_set_color)
      have notin: "obj \<notin> set (scanned ws')"
        using sc2 inb by (auto simp: color_set_color)
      have "length h' = length h" using h' len2 by (simp add: length_set_color)
      moreover have "\<forall>q. children (h' ! q) = children (h ! q) \<and> id_num (h' ! q) = id_num (h ! q)"
        using h' ch2 by (simp add: children_set_color id_num_set_color)
      moreover have "replay h ws = h'"
        using rep2 h' by (simp add: ws replay_append)
      moreover have "forward h ws"
        using fw2 rep2 inb True len2 by (simp add: ws forward_append rank_le_Black)
      moreover have "distinct (scanned ws)"
        using d2 notin by (simp add: ws scanned_simps)
      moreover have "\<forall>q < length h. color (h ! q) \<noteq> White \<longrightarrow> color (h' ! q) = color (h ! q)"
        using fr2 True inb len2 h' by (auto simp: color_set_color)
      moreover have "\<forall>q \<in> set (scanned ws). q < length h \<and> color (h ! q) = White \<and> color (h' ! q) = Black"
        using sc2 True inb len2 h' by (auto simp: ws scanned_simps color_set_color split: if_splits)
      ultimately show ?thesis using inb by (simp add: marked_by_def)
    qed
  qed
next
  case (3 n h)
  then show ?case by (simp add: marked_by_refl)
next
  case (4 n h child cs)
  show ?case
  proof
    assume a: "markObject_children n h (child # cs) = Some (Inr (h', ws))"
    then obtain h1 ws1 ws2 where
      r1: "markObject n h child = Some (Inr (h1, ws1))"
      and r2: "markObject_children n h1 cs = Some (Inr (h', ws2))"
      and ws: "ws = ws1 @ ws2"
      by (auto split: option.splits sum.splits)
    from "4.IH"(1)[of h1 ws1] r1 have inb: "child < length h" and m1: "marked_by h h1 ws1"
      by simp_all
    from "4.IH"(2)[OF r1 refl refl, of h' ws2] r2
    have b2: "\<forall>c \<in> set cs. c < length h1" and m2: "marked_by h1 h' ws2"
      by simp_all
    from m1 have "length h1 = length h" by (simp add: marked_by_def)
    with inb b2 marked_by_trans[OF m1 m2] ws
    show "(\<forall>c \<in> set (child # cs). c < length h) \<and> marked_by h h' ws" by simp
  qed
qed

lemma marked_by_whites: "marked_by h h' ws \<Longrightarrow> whites h' \<le> whites h"
proof -
  assume m: "marked_by h h' ws"
  then have "{p. p < length h' \<and> color (h' ! p) = White} \<subseteq> {p. p < length h \<and> color (h ! p) = White}"
    by (auto simp: marked_by_def)
  then show ?thesis unfolding whites_def by (intro card_mono) simp_all
qed

lemma markObject_returns:
  "(whites h < n \<longrightarrow> (\<exists>r. markObject n h p = Some r))"
  "(whites h < n \<longrightarrow> (\<exists>r. markObject_children n h cs = Some r))"
proof (induction n h p and n h cs rule: markObject_markObject_children.induct)
  case (1 h obj)
  then show ?case by simp
next
  case (2 n h obj)
  show ?case
  proof
    assume w: "whites h < Suc n"
    show "\<exists>r. markObject (Suc n) h obj = Some r"
    proof (cases "length h \<le> obj \<or> color (h ! obj) \<noteq> White")
      case True
      then show ?thesis by auto
    next
      case False
      then have inb: "obj < length h" and W: "color (h ! obj) = White" by auto
      from whites_shade[OF inb W, of Gray] w have "whites (set_color h obj Gray) < n" by simp
      with "2.IH" inb W obtain r where
        "markObject_children n (set_color h obj Gray) (children (h ! obj)) = Some r" by auto
      with inb W show ?thesis by (auto split: sum.splits)
    qed
  qed
next
  case (3 n h)
  then show ?case by simp
next
  case (4 n h child cs)
  show ?case
  proof
    assume w: "whites h < n"
    with "4.IH"(1) obtain r1 where r1: "markObject n h child = Some r1" by auto
    show "\<exists>r. markObject_children n h (child # cs) = Some r"
    proof (cases r1)
      case (Inl e)
      with r1 show ?thesis by simp
    next
      case (Inr hw)
      obtain h1 ws1 where hw: "hw = (h1, ws1)" by (cases hw)
      from markObject_spec(1)[of n h child h1 ws1] r1 Inr hw have "marked_by h h1 ws1" by simp
      from marked_by_whites[OF this] w have "whites h1 < n" by simp
      with "4.IH"(2)[OF r1 Inr hw[symmetric]] obtain r2 where
        "markObject_children n h1 cs = Some r2" by auto
      with r1 Inr hw show ?thesis by (auto split: sum.splits)
    qed
  qed
qed

chapter \<open>The claims\<close>

section \<open>C1: marking completeness\<close>

text \<open>
  Claim C1, as amended. Let every object reachable from the root be allocated and White
  when \<^verbatim>\<open>markPhase\<close> starts. Then \<^verbatim>\<open>markPhase\<close> returns (it does not panic), it
  leaves the graph as it was, and every object reachable from the root is Black
  before the sweep begins. The sweep that follows leaves the heap as it is, so it
  reclaims none of these objects; the line it prints for a reachable object is
  ``alive''; every report it produces consists of exactly the ``alive'' lines of the
  reachable objects; and it does produce a report when the graph below the root has
  no cycle (\<open>rk\<close> ranks every reachable object above its children), with a recursion
  depth of one more than the rank of the root.
\<close>

theorem marking_completeness:
  assumes "\<forall>p. reachable h root p \<longrightarrow> p < length h \<and> color (h ! p) = White"
  shows "\<exists>h' ws. markPhase h root = Inr (h', ws) \<and> length h' = length h \<and>
     (\<forall>p. reachable h' root p \<longleftrightarrow> reachable h root p) \<and>
     (\<forall>p. reachable h root p \<longrightarrow>
        color (h' ! p) = Black \<and> sweep_line (h' ! p) = (id_num (h ! p), Alive)) \<and>
     (\<forall>n. fst (sweepPhase n h' root) = h') \<and>
     (\<forall>n rep. snd (sweepPhase n h' root) = Some (Inr rep) \<longrightarrow>
        set rep = {(id_num (h ! p), Alive) | p. reachable h root p}) \<and>
     (\<forall>rk :: nat \<Rightarrow> nat.
        (\<forall>p c. reachable h root p \<longrightarrow> c \<in> set (children (h ! p)) \<longrightarrow> rk c < rk p) \<longrightarrow>
        (\<exists>rep. snd (sweepPhase (Suc (rk root)) h' root) = Some (Inr rep)))"
proof -
  from markPhase_marks_reachable[OF assms] obtain h' ws where
    m: "markPhase h root = Inr (h', ws)"
    and black: "\<forall>p. reachable h root p \<longrightarrow> color (h' ! p) = Black"
    by blast
  note sp = markPhase_spec[OF m]
  from sp(3) have ch: "\<forall>q. children (h' ! q) = children (h ! q)" by simp
  have same: "reachable h' root p \<longleftrightarrow> reachable h root p" for p
    by (rule reachable_same_graph[OF sp(2) ch])
  have line: "sweep_line (h' ! p) = (id_num (h ! p), Alive)" if "reachable h root p" for p
    using black that sp(3) by (simp add: sweep_line_def)
  have rep: "set rep = {(id_num (h ! p), Alive) | p. reachable h root p}"
    if r: "snd (sweepPhase n h' root) = Some (Inr rep)" for n rep
  proof -
    from sweepPhase_report[OF r] obtain allObjects where
      a: "set allObjects = {p. reachable h' root p}"
         "rep = map (\<lambda>p. sweep_line (h' ! p)) allObjects"
      by blast
    have "set rep = (\<lambda>p. sweep_line (h' ! p)) ` {p. reachable h root p}"
      using a same by simp
    also have "\<dots> = {(id_num (h ! p), Alive) | p. reachable h root p}"
      using line by auto
    finally show ?thesis .
  qed
  have ret: "\<exists>rep. snd (sweepPhase (Suc (rk root)) h' root) = Some (Inr rep)"
    if rk: "\<forall>p c. reachable h root p \<longrightarrow> c \<in> set (children (h ! p)) \<longrightarrow> rk c < rk p"
    for rk :: "nat \<Rightarrow> nat"
  proof -
    let ?R = "{p. reachable h root p}"
    have cl: "closed_in h' ?R"
      using assms ch sp(2) by (auto simp: closed_in_def intro: reachable_child)
    have rk': "\<forall>p \<in> ?R. \<forall>c \<in> set (children (h' ! p)). rk c < rk p"
      using rk ch by simp
    have "root \<in> ?R" using reachable_root[of h root] by simp
    from collectAll_returns[OF cl rk' this, of "[root]"] show ?thesis
      by (auto simp: sweepPhase_def)
  qed
  show ?thesis
    using m sp(2) same black line rep ret
    by (intro exI[of _ h'] exI[of _ ws]) (simp add: sweepPhase_def)
qed

text \<open>
  The theorem at the graph of \<^verbatim>\<open>createObjectGraph\<close>: the objects at the indices 0 to 3
  are reachable from the root and White, and \<open>3 - p\<close> ranks each of them above its
  children. After the marking child3 (index 3) is Black, and the sweep returns the
  report of five ``alive'' lines (child3 is enumerated twice).
\<close>

theorem marking_completeness_witness:
  "markPhase (fst createObjectGraph) 0
     = Inr ([new_object 1 Black [1, 2], new_object 2 Black [3], new_object 3 Black [3],
             new_object 4 Black [], new_object 99 White []],
            [(0, Gray), (1, Gray), (2, Gray), (0, Black), (3, Gray), (1, Black), (2, Black),
             (3, Black)]) \<and>
   color ([new_object 1 Black [1, 2], new_object 2 Black [3], new_object 3 Black [3],
           new_object 4 Black [], new_object 99 White []] ! 3) = Black \<and>
   sweep_line ([new_object 1 Black [1, 2], new_object 2 Black [3], new_object 3 Black [3],
           new_object 4 Black [], new_object 99 White []] ! 3) = (4, Alive) \<and>
   snd (sweepPhase 4 [new_object 1 Black [1, 2], new_object 2 Black [3], new_object 3 Black [3],
           new_object 4 Black [], new_object 99 White []] 0)
     = Some (Inr [(1, Alive), (2, Alive), (4, Alive), (3, Alive), (4, Alive)])"
proof -
  let ?h = "fst createObjectGraph"
  let ?h' = "[new_object 1 Black [1, 2], new_object 2 Black [3], new_object 3 Black [3],
             new_object 4 Black [], new_object 99 White []]"
  have cl: "closed_in ?h {0, 1, 2, 3}"
    by (simp add: closed_in_def createObjectGraph_def new_object_def)
  have white: "\<forall>p. reachable ?h 0 p \<longrightarrow> p < length ?h \<and> color (?h ! p) = White"
  proof (intro allI impI)
    fix p assume "reachable ?h 0 p"
    from reachable_in_closed[OF cl _ this] have "p \<in> {0, 1, 2, 3}" by simp
    then show "p < length ?h \<and> color (?h ! p) = White"
      by (auto simp: createObjectGraph_def new_object_def)
  qed
  have ranked: "\<forall>p c. reachable ?h 0 p \<longrightarrow> c \<in> set (children (?h ! p)) \<longrightarrow> 3 - c < 3 - p"
  proof (intro allI impI)
    fix p c assume "reachable ?h 0 p" and c: "c \<in> set (children (?h ! p))"
    from reachable_in_closed[OF cl _ this(1)] have "p \<in> {0, 1, 2, 3}" by simp
    with c show "3 - c < 3 - p"
      by (auto simp: createObjectGraph_def new_object_def)
  qed
  have m: "markPhase ?h 0 = Inr (?h',
            [(0, Gray), (1, Gray), (2, Gray), (0, Black), (3, Gray), (1, Black), (2, Black),
             (3, Black)])"
    by (simp add: markPhase_def createObjectGraph_def new_object_def set_color_def)
  have r1: "reachable ?h 0 1"
    by (rule reachable_child[OF reachable_root, of 0 ?h 1])
      (simp_all add: createObjectGraph_def new_object_def)
  have r3: "reachable ?h 0 3"
    by (rule reachable_child[OF r1]) (simp_all add: createObjectGraph_def new_object_def)
  from marking_completeness[OF white] m
  have all: "\<forall>p. reachable ?h 0 p \<longrightarrow>
        color (?h' ! p) = Black \<and> sweep_line (?h' ! p) = (id_num (?h ! p), Alive)"
    and ret: "\<forall>rk :: nat \<Rightarrow> nat.
        (\<forall>p c. reachable ?h 0 p \<longrightarrow> c \<in> set (children (?h ! p)) \<longrightarrow> rk c < rk p) \<longrightarrow>
        (\<exists>rep. snd (sweepPhase (Suc (rk 0)) ?h' 0) = Some (Inr rep))"
    by auto
  from all r3 have c3: "color (?h' ! 3) = Black \<and> sweep_line (?h' ! 3) = (id_num (?h ! 3), Alive)"
    by blast
  from ret[rule_format, of "\<lambda>p. 3 - p"] ranked
  obtain rep where "snd (sweepPhase (Suc (3 - 0)) ?h' 0) = Some (Inr rep)" by blast
  then have "snd (sweepPhase 4 ?h' 0)
     = Some (Inr [(1, Alive), (2, Alive), (4, Alive), (3, Alive), (4, Alive)])"
    by (simp add: sweepPhase_def sweep_line_def new_object_def numeral_3_eq_3
        eval_nat_numeral split: option.splits sum.splits)
  with m c3 show ?thesis by (simp add: createObjectGraph_def new_object_def)
qed

text \<open>
  The claim as stated fails when a Black object points to a White one at the start of
  the marking. In the marked heap, B is stored into the Black A through the Yuasa
  barrier, which shades for a Gray holder only; a marking from the root then scans
  the root alone, B is reachable and still White, and the sweep reports it as
  reclaimed. And on the cyclic graph the marking turns both objects Black, but the
  sweep that follows produces no report, whatever its recursion depth.
\<close>

theorem marking_lost_object_counterexample:
  "yuasaWriteBarrier marked_demo 1 2
     = Inr [new_object 1 Black [1], new_object 2 Black [2], new_object 3 White []] \<and>
   markPhase [new_object 1 Black [1], new_object 2 Black [2], new_object 3 White []] 0
     = Inr ([new_object 1 Black [1], new_object 2 Black [2], new_object 3 White []],
            [(0, Gray), (0, Black)]) \<and>
   reachable [new_object 1 Black [1], new_object 2 Black [2], new_object 3 White []] 0 2 \<and>
   color ([new_object 1 Black [1], new_object 2 Black [2], new_object 3 White []] ! 2) = White \<and>
   sweepPhase 3 [new_object 1 Black [1], new_object 2 Black [2], new_object 3 White []] 0
     = ([new_object 1 Black [1], new_object 2 Black [2], new_object 3 White []],
        Some (Inr [(1, Alive), (2, Alive), (3, Reclaimed)])) \<and>
   markPhase cycle_demo 0
     = Inr ([new_object 1 Black [1, 0], new_object 2 Black [0]],
            [(0, Gray), (1, Gray), (0, Black), (1, Black)]) \<and>
   (\<forall>n. sweepPhase n [new_object 1 Black [1, 0], new_object 2 Black [0]] 0
      = ([new_object 1 Black [1, 0], new_object 2 Black [0]], None))"
proof -
  let ?h = "[new_object 1 Black [1], new_object 2 Black [2], new_object 3 White []]"
  have r1: "reachable ?h 0 1"
    by (rule reachable_child[OF reachable_root, of 0 ?h 1]) (simp_all add: new_object_def)
  have r2: "reachable ?h 0 2"
    by (rule reachable_child[OF r1]) (simp_all add: new_object_def)
  have s: "sweepPhase 3 ?h 0 = (?h, Some (Inr [(1, Alive), (2, Alive), (3, Reclaimed)]))"
    by (simp add: sweepPhase_def sweep_line_def new_object_def numeral_3_eq_3)
  have m: "markPhase ?h 0 = Inr (?h, [(0, Gray), (0, Black)])"
    by (simp add: markPhase_def demo_defs)
  have y: "yuasaWriteBarrier marked_demo 1 2 = Inr ?h"
    by (simp add: yuasaWriteBarrier_def demo_defs)
  have c: "markPhase cycle_demo 0
     = Inr ([new_object 1 Black [1, 0], new_object 2 Black [0]],
            [(0, Gray), (1, Gray), (0, Black), (1, Black)])"
    by (simp add: markPhase_def demo_defs)
  from y m r2 s c sweepPhase_cycle_demo(2) show ?thesis
    by (simp add: new_object_def)
qed

section \<open>C2: the hybrid barrier and the value already stored\<close>

text \<open>
  Claim C2, as amended. \<^verbatim>\<open>hybridWriteBarrier\<close> loads no old value: the store appends
  the new reference to the holder's children and overwrites nothing. The only colour
  the call may change is that of the new reference, which turns Gray exactly when it
  is White and the holder is Black (the branch the source calls the Dijkstra
  condition) or Gray (the branch it calls the Yuasa condition). Every other object,
  the ones the holder already points to among them, keeps its colour, and with a
  White holder nothing is shaded.
\<close>

theorem hybrid_barrier_shades_only_the_new_reference:
  "hybridWriteBarrier h obj child = Inr h' \<Longrightarrow>
     length h' = length h \<and>
     (\<forall>q < length h. q \<noteq> child \<longrightarrow> color (h' ! q) = color (h ! q)) \<and>
     color (h' ! child) =
       (if color (h ! child) = White \<and> (color (h ! obj) = Black \<or> color (h ! obj) = Gray)
        then Gray else color (h ! child)) \<and>
     children (h' ! obj) = children (h ! obj) @ [child] \<and>
     (\<forall>q. q \<noteq> obj \<longrightarrow> children (h' ! q) = children (h ! q))"
  unfolding hybrid_barrier_result
  using shade_append_facts[of obj h child h'
      "color (h ! child) = White \<and> (color (h ! obj) = Black \<or> color (h ! obj) = Gray)"]
  by simp

text \<open>
  The theorem at a Gray holder that points to the White object at index 1 and stores
  the White object at index 2: the object at index 1 keeps its colour.
\<close>

theorem hybrid_barrier_shades_only_the_new_reference_witness:
  "hybridWriteBarrier (holder_demo Gray) 0 2
     = Inr [new_object 1 Gray [1, 2], new_object 2 White [], new_object 3 Gray []] \<and>
   color ([new_object 1 Gray [1, 2], new_object 2 White [], new_object 3 Gray []] ! 1)
     = color (holder_demo Gray ! 1)"
proof -
  have r: "hybridWriteBarrier (holder_demo Gray) 0 2
           = Inr [new_object 1 Gray [1, 2], new_object 2 White [], new_object 3 Gray []]"
    by (simp add: hybridWriteBarrier_def demo_defs)
  from hybrid_barrier_shades_only_the_new_reference[OF r]
  have "color ([new_object 1 Gray [1, 2], new_object 2 White [], new_object 3 Gray []] ! 1)
        = color (holder_demo Gray ! 1)"
    by (simp add: holder_demo_def)
  with r show ?thesis by simp
qed

text \<open>
  The claim as stated fails. A Black holder points to the White object at index 1; the
  store of the object at index 2 leaves the object at index 1 White and in place.
  With a White holder not even the new reference is shaded.
\<close>

theorem hybrid_barrier_old_value_counterexample:
  "hybridWriteBarrier (holder_demo Black) 0 2
     = Inr [new_object 1 Black [1, 2], new_object 2 White [], new_object 3 Gray []] \<and>
   hybridWriteBarrier (holder_demo White) 0 2
     = Inr [new_object 1 White [1, 2], new_object 2 White [], new_object 3 White []]"
  by (simp add: hybridWriteBarrier_def demo_defs)

section \<open>C3: an object the barrier shaded is not White after the sweep\<close>

text \<open>
  Claim C3. If A is Black and B is White (both allocated) and the write barrier fires
  for the store of B into A, then B is Gray after the barrier and it is not White at
  the end of the cycle: the Dijkstra and the hybrid barrier both give the same heap,
  in which A points to B; the sweep changes nothing, prints ``abnormal state'' and
  not ``reclaimed'' for B, and does so in every report of a sweep from a root that
  reaches A; and a marking from any root that runs between the barrier and the sweep
  leaves B with a colour other than White as well.
\<close>

theorem shaded_object_survives_the_cycle:
  assumes "obj < length h" "child < length h"
    and "color (h ! obj) = Black" "color (h ! child) = White"
  shows "\<exists>h1. dijkstraWriteBarrier h obj child = Inr h1 \<and>
            hybridWriteBarrier h obj child = Inr h1 \<and>
            length h1 = length h \<and> color (h1 ! child) = Gray \<and>
            child \<in> set (children (h1 ! obj)) \<and>
            (\<forall>n root. fst (sweepPhase n h1 root) = h1) \<and>
            sweep_line (h1 ! child) = (id_num (h ! child), Abnormal) \<and>
            (\<forall>n root rep. snd (sweepPhase n h1 root) = Some (Inr rep) \<longrightarrow>
               reachable h1 root obj \<longrightarrow> (id_num (h ! child), Abnormal) \<in> set rep) \<and>
            (\<forall>root h2 ws. markPhase h1 root = Inr (h2, ws) \<longrightarrow>
               length h2 = length h \<and> color (h2 ! child) \<noteq> White \<and>
               (\<forall>n r. color (fst (sweepPhase n h2 r) ! child) \<noteq> White \<and>
                      snd (sweep_line (fst (sweepPhase n h2 r) ! child)) \<noteq> Reclaimed))"
proof -
  let ?h1 = "append_child (set_color h child Gray) obj child"
  have h1: "?h1 = append_child (if True then set_color h child Gray else h) obj child" by simp
  note f = shade_append_facts[OF assms(1,2) h1]
  have d: "dijkstraWriteBarrier h obj child = Inr ?h1"
    using assms by (simp add: dijkstra_barrier_result)
  have hy: "hybridWriteBarrier h obj child = Inr ?h1"
    using assms by (simp add: hybrid_barrier_result)
  have len: "length ?h1 = length h" by (rule f(1))
  have gray: "color (?h1 ! child) = Gray" using f(2)[OF assms(2)] by simp
  have edge: "child \<in> set (children (?h1 ! obj))" using f(3) by simp
  have line: "sweep_line (?h1 ! child) = (id_num (h ! child), Abnormal)"
    using gray f(5)[of child] by (simp add: sweep_line_def)
  have rep: "(id_num (h ! child), Abnormal) \<in> set rep"
    if r: "snd (sweepPhase n ?h1 root) = Some (Inr rep)" and ro: "reachable ?h1 root obj"
    for n root rep
  proof -
    from sweepPhase_report[OF r] obtain allObjects where
      a: "set allObjects = {p. reachable ?h1 root p}"
         "rep = map (\<lambda>p. sweep_line (?h1 ! p)) allObjects"
      by blast
    have "reachable ?h1 root child"
      using reachable_child[OF ro _ edge] assms(1) len by simp
    with a(1) have "child \<in> set allObjects" by simp
    then have "sweep_line (?h1 ! child) \<in> set rep" unfolding a(2) by simp
    with line show ?thesis by simp
  qed
  have mark: "length h2 = length h \<and> color (h2 ! child) \<noteq> White \<and>
               (\<forall>n r. color (fst (sweepPhase n h2 r) ! child) \<noteq> White \<and>
                      snd (sweep_line (fst (sweepPhase n h2 r) ! child)) \<noteq> Reclaimed)"
    if m: "markPhase ?h1 root = Inr (h2, ws)" for root h2 ws
  proof -
    from markPhase_spec(2,6)[OF m] len assms(2) gray
    have l2: "length h2 = length h" and "rank Gray \<le> rank (color (h2 ! child))" by auto
    then have nw: "color (h2 ! child) \<noteq> White" by (cases "color (h2 ! child)") simp_all
    then have "snd (sweep_line (h2 ! child)) \<noteq> Reclaimed"
      by (cases "color (h2 ! child)") (simp_all add: sweep_line_def)
    with l2 nw show ?thesis by (simp add: sweepPhase_def)
  qed
  show ?thesis
    using d hy len gray edge line rep mark by (intro exI[of _ ?h1]) (simp add: sweepPhase_def)
qed

text \<open>
  The theorem at the test of the specification: the root (index 0) holds A (index 1),
  both Black; B (index 2) is White; the barrier runs for the store of B into A.
\<close>

theorem shaded_object_survives_the_cycle_witness:
  "dijkstraWriteBarrier marked_demo 1 2
     = Inr [new_object 1 Black [1], new_object 2 Black [2], new_object 3 Gray []] \<and>
   color (fst (sweepPhase 3 [new_object 1 Black [1], new_object 2 Black [2], new_object 3 Gray []] 0) ! 2)
     = Gray \<and>
   sweep_line ([new_object 1 Black [1], new_object 2 Black [2], new_object 3 Gray []] ! 2)
     = (3, Abnormal) \<and>
   snd (sweepPhase 3 [new_object 1 Black [1], new_object 2 Black [2], new_object 3 Gray []] 0)
     = Some (Inr [(1, Alive), (2, Alive), (3, Abnormal)]) \<and>
   (3, Abnormal) \<in> set [(1, Alive), (2, Alive), (3 :: int, Abnormal)] \<and>
   markPhase [new_object 1 Black [1], new_object 2 Black [2], new_object 3 Gray []] 0
     = Inr ([new_object 1 Black [1], new_object 2 Black [2], new_object 3 Gray []],
            [(0, Gray), (0, Black)]) \<and>
   color ([new_object 1 Black [1], new_object 2 Black [2], new_object 3 Gray []] ! 2) \<noteq> White"
proof -
  let ?h1 = "[new_object 1 Black [1], new_object 2 Black [2], new_object 3 Gray []]"
  have d: "dijkstraWriteBarrier marked_demo 1 2 = Inr ?h1"
    by (simp add: dijkstraWriteBarrier_def demo_defs)
  have s: "snd (sweepPhase 3 ?h1 0) = Some (Inr [(1, Alive), (2, Alive), (3, Abnormal)])"
    by (simp add: sweepPhase_def sweep_line_def new_object_def numeral_3_eq_3)
  have m: "markPhase ?h1 0 = Inr (?h1, [(0, Gray), (0, Black)])"
    by (simp add: markPhase_def demo_defs)
  have r: "reachable ?h1 0 1"
    by (rule reachable_child[OF reachable_root, of 0 ?h1 1]) (simp_all add: new_object_def)
  have "(1::nat) < length marked_demo" "(2::nat) < length marked_demo"
    "color (marked_demo ! 1) = Black" "color (marked_demo ! 2) = White"
    by (simp_all add: demo_defs)
  from shaded_object_survives_the_cycle[OF this] d
  have g: "color (?h1 ! 2) = Gray" and f: "\<forall>n root. fst (sweepPhase n ?h1 root) = ?h1"
    and l: "sweep_line (?h1 ! 2) = (id_num (marked_demo ! 2), Abnormal)"
    and rp: "\<forall>n root rep. snd (sweepPhase n ?h1 root) = Some (Inr rep) \<longrightarrow>
               reachable ?h1 root 1 \<longrightarrow> (id_num (marked_demo ! 2), Abnormal) \<in> set rep"
    and mk: "\<forall>root h2 ws. markPhase ?h1 root = Inr (h2, ws) \<longrightarrow> color (h2 ! 2) \<noteq> White"
    by auto
  from rp s r have "(id_num (marked_demo ! 2), Abnormal) \<in> set [(1, Alive), (2, Alive), (3, Abnormal)]"
    by blast
  moreover from mk m have "color (?h1 ! 2) \<noteq> White" by blast
  ultimately show ?thesis using d s m g f l by (simp add: demo_defs)
qed

section \<open>C4: colours move forward\<close>

text \<open>
  Claim C4, as amended. Within one cycle every colour write of \<^verbatim>\<open>markObject\<close>, every
  colour write of the loop of \<^verbatim>\<open>markPhase\<close> and every write-barrier variant moves an
  object's colour forward along White, Gray, Black. The first write of \<^verbatim>\<open>markPhase\<close>
  sets the root Gray whatever its colour was: all writes of \<^verbatim>\<open>markPhase\<close> move forward
  when the root is not Black on entry (as at the start of a cycle), and in every
  case no object has a lower colour when \<^verbatim>\<open>markPhase\<close> returns than it had on entry.
  The writes listed are all the writes: replaying them on the heap before the call
  gives the heap after it.
\<close>

theorem colour_writes_move_forward:
  "(markObject n h obj = Some (Inr (h', ws)) \<longrightarrow>
      (replay h ws = h' \<and> forward h ws)) \<and>
   (markPhase h root = Inr (h', ws) \<longrightarrow>
      (replay h ws = h' \<and>
       (\<exists>ws'. ws = (root, Gray) # ws' \<and> forward (set_color h root Gray) ws') \<and>
       (color (h ! root) \<noteq> Black \<longrightarrow> forward h ws) \<and>
       (\<forall>q < length h. rank (color (h ! q)) \<le> rank (color (h' ! q))))) \<and>
   (dijkstraWriteBarrier h obj child = Inr h' \<longrightarrow>
      (\<forall>q < length h. rank (color (h ! q)) \<le> rank (color (h' ! q)))) \<and>
   (yuasaWriteBarrier h obj child = Inr h' \<longrightarrow>
      (\<forall>q < length h. rank (color (h ! q)) \<le> rank (color (h' ! q)))) \<and>
   (hybridWriteBarrier h obj child = Inr h' \<longrightarrow>
      (\<forall>q < length h. rank (color (h ! q)) \<le> rank (color (h' ! q))))"
proof -
  have a: "replay h ws = h' \<and> forward h ws" if "markObject n h obj = Some (Inr (h', ws))"
  proof -
    from that markObject_spec(1)[of n h obj h' ws] have "marked_by h h' ws" by simp
    then show ?thesis by (simp add: marked_by_def)
  qed
  have b: "replay h ws = h' \<and>
       (\<exists>ws'. ws = (root, Gray) # ws' \<and> forward (set_color h root Gray) ws') \<and>
       (color (h ! root) \<noteq> Black \<longrightarrow> forward h ws) \<and>
       (\<forall>q < length h. rank (color (h ! q)) \<le> rank (color (h' ! q)))"
    if m: "markPhase h root = Inr (h', ws)"
    using markPhase_spec(4,8,7,6)[OF m] by blast
  have c: "\<forall>q < length h. rank (color (h ! q)) \<le> rank (color (h' ! q))"
    if "dijkstraWriteBarrier h obj child = Inr h'"
    using that unfolding dijkstra_barrier_result by (intro shade_append_forward) auto
  have d: "\<forall>q < length h. rank (color (h ! q)) \<le> rank (color (h' ! q))"
    if "yuasaWriteBarrier h obj child = Inr h'"
    using that unfolding yuasa_barrier_result by (intro shade_append_forward) auto
  have e: "\<forall>q < length h. rank (color (h ! q)) \<le> rank (color (h' ! q))"
    if "hybridWriteBarrier h obj child = Inr h'"
    using that unfolding hybrid_barrier_result by (intro shade_append_forward) auto
  from a b c d e show ?thesis by blast
qed

text \<open>
  The theorem at the graph of \<^verbatim>\<open>createObjectGraph\<close>, whose root is White: the eight
  writes of \<^verbatim>\<open>markPhase\<close> all move forward.
\<close>

theorem colour_writes_move_forward_witness:
  "markPhase (fst createObjectGraph) 0
     = Inr ([new_object 1 Black [1, 2], new_object 2 Black [3], new_object 3 Black [3],
             new_object 4 Black [], new_object 99 White []],
            [(0, Gray), (1, Gray), (2, Gray), (0, Black), (3, Gray), (1, Black), (2, Black),
             (3, Black)]) \<and>
   color (fst createObjectGraph ! 0) \<noteq> Black \<and>
   forward (fst createObjectGraph)
     [(0, Gray), (1, Gray), (2, Gray), (0, Black), (3, Gray), (1, Black), (2, Black), (3, Black)]"
proof -
  let ?h = "fst createObjectGraph"
  let ?h' = "[new_object 1 Black [1, 2], new_object 2 Black [3], new_object 3 Black [3],
             new_object 4 Black [], new_object 99 White []]"
  let ?ws = "[(0, Gray), (1, Gray), (2, Gray), (0, Black), (3, Gray), (1, Black), (2, Black),
             (3::nat, Black)]"
  have m: "markPhase ?h 0 = Inr (?h', ?ws)"
    by (simp add: markPhase_def createObjectGraph_def new_object_def set_color_def)
  have c: "color (?h ! 0) \<noteq> Black"
    by (simp add: createObjectGraph_def new_object_def)
  from colour_writes_move_forward[of _ ?h _ ?h' ?ws 0] m c have "forward ?h ?ws" by blast
  with m c show ?thesis by simp
qed

text \<open>
  The claim as stated fails for \<^verbatim>\<open>markPhase\<close> on a Black root. In the heap the
  Dijkstra barrier leaves when B is stored into A after a marking, a second marking
  from the root in the same cycle first writes Gray to the Black root.
\<close>

theorem markPhase_black_root_counterexample:
  "color ([new_object 1 Black [1], new_object 2 Black [2], new_object 3 Gray []] ! 0) = Black \<and>
   markPhase [new_object 1 Black [1], new_object 2 Black [2], new_object 3 Gray []] 0
     = Inr ([new_object 1 Black [1], new_object 2 Black [2], new_object 3 Gray []],
            [(0, Gray), (0, Black)]) \<and>
   \<not> forward [new_object 1 Black [1], new_object 2 Black [2], new_object 3 Gray []]
       [(0, Gray), (0, Black)]"
  by (simp add: markPhase_def demo_defs)

section \<open>C5: what the Dijkstra barrier does for a Black holder and a White reference\<close>

text \<open>
  Claim C5, as amended. On \<^verbatim>\<open>obj.dijkstraWriteBarrier(child)\<close> with a Black holder and
  a White child (both allocated), the barrier turns the child Gray and then appends it
  to the holder's children, under the holder's lock. That is all it does: the result
  is the heap with these two updates, every other colour and every other children
  list as before. The barrier has no worklist to put the child on (the worklist
  \<^verbatim>\<open>grayObjects\<close> is a local variable of \<^verbatim>\<open>markPhase\<close>).
\<close>

theorem dijkstra_barrier_shades_and_stores:
  "obj < length h \<Longrightarrow> child < length h \<Longrightarrow> color (h ! obj) = Black \<Longrightarrow>
   color (h ! child) = White \<Longrightarrow>
   (\<exists>h'. dijkstraWriteBarrier h obj child = Inr h' \<and>
      h' = append_child (set_color h child Gray) obj child \<and>
      length h' = length h \<and>
      color (h' ! child) = Gray \<and>
      (\<forall>q < length h. q \<noteq> child \<longrightarrow> color (h' ! q) = color (h ! q)) \<and>
      children (h' ! obj) = children (h ! obj) @ [child] \<and>
      (\<forall>q. q \<noteq> obj \<longrightarrow> children (h' ! q) = children (h ! q)))"
proof -
  assume b: "obj < length h" "child < length h"
    and c: "color (h ! obj) = Black" "color (h ! child) = White"
  let ?h' = "append_child (set_color h child Gray) obj child"
  have h': "?h' = append_child (if True then set_color h child Gray else h) obj child" by simp
  have r: "dijkstraWriteBarrier h obj child = Inr ?h'"
    using b c by (simp add: dijkstra_barrier_result)
  note f = shade_append_facts[OF b h']
  from r f(1) f(2) f(3) f(4) b show ?thesis by simp
qed

text \<open>The theorem at the marked heap: A (index 1) is Black, B (index 2) is White.\<close>

theorem dijkstra_barrier_shades_and_stores_witness:
  "dijkstraWriteBarrier marked_demo 1 2
     = Inr [new_object 1 Black [1], new_object 2 Black [2], new_object 3 Gray []]"
proof -
  have "(1::nat) < length marked_demo" "(2::nat) < length marked_demo"
    "color (marked_demo ! 1) = Black" "color (marked_demo ! 2) = White"
    by (simp_all add: demo_defs)
  from dijkstra_barrier_shades_and_stores[OF this]
  show ?thesis by (simp add: demo_defs)
qed

text \<open>
  The claim as stated fails: the shaded object is on no worklist. At the marked heap
  the barrier turns B Gray; a marking from the root afterwards (B is now reachable
  through A) processes the root alone, and B is still Gray when the sweep reports.
\<close>

theorem dijkstra_barrier_enqueue_counterexample:
  "dijkstraWriteBarrier marked_demo 1 2
     = Inr [new_object 1 Black [1], new_object 2 Black [2], new_object 3 Gray []] \<and>
   markPhase [new_object 1 Black [1], new_object 2 Black [2], new_object 3 Gray []] 0
     = Inr ([new_object 1 Black [1], new_object 2 Black [2], new_object 3 Gray []],
            [(0, Gray), (0, Black)]) \<and>
   sweepPhase 3 [new_object 1 Black [1], new_object 2 Black [2], new_object 3 Gray []] 0
     = ([new_object 1 Black [1], new_object 2 Black [2], new_object 3 Gray []],
        Some (Inr [(1, Alive), (2, Alive), (3, Abnormal)]))"
  by (simp add: dijkstraWriteBarrier_def markPhase_def sweepPhase_def sweep_line_def demo_defs
      numeral_3_eq_3)

section \<open>C6: the sweep frees nothing and displays the colours\<close>




section \<open>C7: what gates the barriers\<close>

text \<open>
  Claim C7, as amended. No barrier variant reads a collector phase: the sources have
  no phase flag. A barrier call changes a colour exactly when its colour test holds
  (Dijkstra: holder Black and child White; Yuasa: holder Gray and child White;
  hybrid: holder Black or Gray and child White), and then it turns the child Gray;
  in every other case every object keeps its colour.
\<close>

theorem barriers_gated_by_colours_only:
  "(dijkstraWriteBarrier h obj child = Inr h' \<longrightarrow>
      (\<forall>q < length h. color (h' ! q) =
         (if color (h ! obj) = Black \<and> color (h ! child) = White \<and> q = child
          then Gray else color (h ! q)))) \<and>
   (yuasaWriteBarrier h obj child = Inr h' \<longrightarrow>
      (\<forall>q < length h. color (h' ! q) =
         (if color (h ! obj) = Gray \<and> color (h ! child) = White \<and> q = child
          then Gray else color (h ! q)))) \<and>
   (hybridWriteBarrier h obj child = Inr h' \<longrightarrow>
      (\<forall>q < length h. color (h' ! q) =
         (if (color (h ! obj) = Black \<or> color (h ! obj) = Gray) \<and> color (h ! child) = White \<and>
             q = child
          then Gray else color (h ! q))))"
proof (intro conjI impI allI)
  fix q assume "dijkstraWriteBarrier h obj child = Inr h'" and q: "q < length h"
  then have "obj < length h" "child < length h"
    "h' = append_child (if color (h ! obj) = Black \<and> color (h ! child) = White
                        then set_color h child Gray else h) obj child"
    by (simp_all add: dijkstra_barrier_result)
  from shade_append_facts(2)[OF this q]
  show "color (h' ! q) = (if color (h ! obj) = Black \<and> color (h ! child) = White \<and> q = child
          then Gray else color (h ! q))" by simp
next
  fix q assume "yuasaWriteBarrier h obj child = Inr h'" and q: "q < length h"
  then have "obj < length h" "child < length h"
    "h' = append_child (if color (h ! obj) = Gray \<and> color (h ! child) = White
                        then set_color h child Gray else h) obj child"
    by (simp_all add: yuasa_barrier_result)
  from shade_append_facts(2)[OF this q]
  show "color (h' ! q) = (if color (h ! obj) = Gray \<and> color (h ! child) = White \<and> q = child
          then Gray else color (h ! q))" by simp
next
  fix q assume "hybridWriteBarrier h obj child = Inr h'" and q: "q < length h"
  then have "obj < length h" "child < length h"
    "h' = append_child (if color (h ! child) = White \<and>
                           (color (h ! obj) = Black \<or> color (h ! obj) = Gray)
                        then set_color h child Gray else h) obj child"
    by (simp_all add: hybrid_barrier_result)
  from shade_append_facts(2)[OF this q]
  show "color (h' ! q) = (if (color (h ! obj) = Black \<or> color (h ! obj) = Gray) \<and>
          color (h ! child) = White \<and> q = child then Gray else color (h ! q))" by auto
qed

text \<open>
  The theorem at the heap of \<^verbatim>\<open>demonstrateDijkstraWriteBarrier\<close>: with the White obj2
  as holder no variant changes the colour of obj3; with the Black obj1 as holder the
  Yuasa variant leaves obj2 White.
\<close>

theorem barriers_gated_by_colours_only_witness:
  "dijkstraWriteBarrier dijkstra_demo 1 2 = Inr (append_child dijkstra_demo 1 2) \<and>
   color (append_child dijkstra_demo 1 2 ! 2) = White \<and>
   yuasaWriteBarrier dijkstra_demo 0 1 = Inr (append_child dijkstra_demo 0 1) \<and>
   color (append_child dijkstra_demo 0 1 ! 1) = White \<and>
   hybridWriteBarrier dijkstra_demo 1 2 = Inr (append_child dijkstra_demo 1 2)"
proof -
  have d: "dijkstraWriteBarrier dijkstra_demo 1 2 = Inr (append_child dijkstra_demo 1 2)"
    by (simp add: dijkstraWriteBarrier_def dijkstra_demo_def new_object_def)
  have y: "yuasaWriteBarrier dijkstra_demo 0 1 = Inr (append_child dijkstra_demo 0 1)"
    by (simp add: yuasaWriteBarrier_def dijkstra_demo_def new_object_def)
  have hy: "hybridWriteBarrier dijkstra_demo 1 2 = Inr (append_child dijkstra_demo 1 2)"
    by (simp add: hybridWriteBarrier_def dijkstra_demo_def new_object_def)
  have c: "color (dijkstra_demo ! 1) = White" "color (dijkstra_demo ! 2) = White"
    "color (dijkstra_demo ! 0) = Black" "length dijkstra_demo = 3"
    by (simp_all add: dijkstra_demo_def new_object_def)
  from barriers_gated_by_colours_only[of dijkstra_demo 1 2 "append_child dijkstra_demo 1 2"] d hy c
  have "color (append_child dijkstra_demo 1 2 ! 2) = White" by simp
  moreover
  from barriers_gated_by_colours_only[of dijkstra_demo 0 1 "append_child dijkstra_demo 0 1"] y c
  have "color (append_child dijkstra_demo 0 1 ! 1) = White" by simp
  ultimately show ?thesis using d y hy by simp
qed

text \<open>
  The claim as stated fails: \<^verbatim>\<open>demonstrateDijkstraWriteBarrier\<close> and its siblings call
  the barriers while no collector runs at all, and obj2 turns Gray.
\<close>

theorem barrier_phase_gating_counterexample:
  "dijkstraWriteBarrier dijkstra_demo 0 1
     = Inr [new_object 1 Black [1], new_object 2 Gray [], new_object 3 White []] \<and>
   yuasaWriteBarrier yuasa_demo 0 1
     = Inr [new_object 1 Gray [1], new_object 2 Gray [], new_object 3 White []] \<and>
   hybridWriteBarrier dijkstra_demo 0 1
     = Inr [new_object 1 Black [1], new_object 2 Gray [], new_object 3 White []]"
  by (simp add: dijkstraWriteBarrier_def yuasaWriteBarrier_def hybridWriteBarrier_def demo_defs)

section \<open>C8: calling a barrier twice\<close>

text \<open>
  Claim C8, as amended. A second call of a barrier with the same holder and the same
  reference does not panic and changes no colour: the colours after two calls are the
  colours after one. The store is repeated, though: every call appends the reference
  to the holder's children once more, so after two calls the list ends with the
  reference twice.
\<close>

theorem barrier_twice_colours_once_children_twice:
  "(dijkstraWriteBarrier h obj child = Inr h1 \<longrightarrow>
      (\<exists>h2. dijkstraWriteBarrier h1 obj child = Inr h2 \<and> map color h2 = map color h1 \<and>
            children (h2 ! obj) = children (h ! obj) @ [child, child])) \<and>
   (yuasaWriteBarrier h obj child = Inr h1 \<longrightarrow>
      (\<exists>h2. yuasaWriteBarrier h1 obj child = Inr h2 \<and> map color h2 = map color h1 \<and>
            children (h2 ! obj) = children (h ! obj) @ [child, child])) \<and>
   (hybridWriteBarrier h obj child = Inr h1 \<longrightarrow>
      (\<exists>h2. hybridWriteBarrier h1 obj child = Inr h2 \<and> map color h2 = map color h1 \<and>
            children (h2 ! obj) = children (h ! obj) @ [child, child]))"
proof (intro conjI impI)
  assume "dijkstraWriteBarrier h obj child = Inr h1"
  then have b: "obj < length h" "child < length h"
    and h1: "h1 = append_child (if color (h ! obj) = Black \<and> color (h ! child) = White
                        then set_color h child Gray else h) obj child"
    by (simp_all add: dijkstra_barrier_result)
  note f = shade_append_facts[OF b h1]
  have "\<not> (color (h1 ! obj) = Black \<and> color (h1 ! child) = White)"
    using f(2)[of obj] f(2)[of child] b by (auto split: if_splits)
  then have "dijkstraWriteBarrier h1 obj child = Inr (append_child h1 obj child)"
    using b f(1) by (auto simp: dijkstra_barrier_result)
  with second_append[OF b h1]
  show "\<exists>h2. dijkstraWriteBarrier h1 obj child = Inr h2 \<and> map color h2 = map color h1 \<and>
            children (h2 ! obj) = children (h ! obj) @ [child, child]" by simp
next
  assume "yuasaWriteBarrier h obj child = Inr h1"
  then have b: "obj < length h" "child < length h"
    and h1: "h1 = append_child (if color (h ! obj) = Gray \<and> color (h ! child) = White
                        then set_color h child Gray else h) obj child"
    by (simp_all add: yuasa_barrier_result)
  note f = shade_append_facts[OF b h1]
  have "\<not> (color (h1 ! obj) = Gray \<and> color (h1 ! child) = White)"
    using f(2)[of obj] f(2)[of child] b by (auto split: if_splits)
  then have "yuasaWriteBarrier h1 obj child = Inr (append_child h1 obj child)"
    using b f(1) by (auto simp: yuasa_barrier_result)
  with second_append[OF b h1]
  show "\<exists>h2. yuasaWriteBarrier h1 obj child = Inr h2 \<and> map color h2 = map color h1 \<and>
            children (h2 ! obj) = children (h ! obj) @ [child, child]" by simp
next
  assume "hybridWriteBarrier h obj child = Inr h1"
  then have b: "obj < length h" "child < length h"
    and h1: "h1 = append_child (if color (h ! child) = White \<and>
                           (color (h ! obj) = Black \<or> color (h ! obj) = Gray)
                        then set_color h child Gray else h) obj child"
    by (simp_all add: hybrid_barrier_result)
  note f = shade_append_facts[OF b h1]
  have "\<not> (color (h1 ! child) = White \<and> (color (h1 ! obj) = Black \<or> color (h1 ! obj) = Gray))"
    using f(2)[of obj] f(2)[of child] b by (auto split: if_splits)
  then have "hybridWriteBarrier h1 obj child = Inr (append_child h1 obj child)"
    using b f(1) by (auto simp: hybrid_barrier_result)
  with second_append[OF b h1]
  show "\<exists>h2. hybridWriteBarrier h1 obj child = Inr h2 \<and> map color h2 = map color h1 \<and>
            children (h2 ! obj) = children (h ! obj) @ [child, child]" by simp
qed

text \<open>The theorem at the first call of \<^verbatim>\<open>demonstrateDijkstraWriteBarrier\<close>, made twice.\<close>

theorem barrier_twice_colours_once_children_twice_witness:
  "dijkstraWriteBarrier dijkstra_demo 0 1
     = Inr [new_object 1 Black [1], new_object 2 Gray [], new_object 3 White []] \<and>
   dijkstraWriteBarrier [new_object 1 Black [1], new_object 2 Gray [], new_object 3 White []] 0 1
     = Inr [new_object 1 Black [1, 1], new_object 2 Gray [], new_object 3 White []] \<and>
   map color [new_object 1 Black [1, 1], new_object 2 Gray [], new_object 3 White []]
     = map color [new_object 1 Black [1], new_object 2 Gray [], new_object 3 White []]"
proof -
  let ?h1 = "[new_object 1 Black [1], new_object 2 Gray [], new_object 3 White []]"
  let ?h2 = "[new_object 1 Black [1, 1], new_object 2 Gray [], new_object 3 White []]"
  have r: "dijkstraWriteBarrier dijkstra_demo 0 1 = Inr ?h1"
    by (simp add: dijkstraWriteBarrier_def demo_defs)
  have r2: "dijkstraWriteBarrier ?h1 0 1 = Inr ?h2"
    by (simp add: dijkstraWriteBarrier_def demo_defs)
  from barrier_twice_colours_once_children_twice[of dijkstra_demo 0 1 ?h1] r r2
  have "map color ?h2 = map color ?h1" by simp
  with r r2 show ?thesis by simp
qed

text \<open>
  The claim as stated fails: the second call adds the reference to the holder's
  children again, so two calls do not leave what one call leaves.
\<close>

theorem barrier_twice_counterexample:
  "dijkstraWriteBarrier dijkstra_demo 0 1
     = Inr [new_object 1 Black [1], new_object 2 Gray [], new_object 3 White []] \<and>
   dijkstraWriteBarrier [new_object 1 Black [1], new_object 2 Gray [], new_object 3 White []] 0 1
     = Inr [new_object 1 Black [1, 1], new_object 2 Gray [], new_object 3 White []] \<and>
   [new_object 1 Black [1, 1], new_object 2 Gray [], new_object 3 White []]
     \<noteq> [new_object 1 Black [1], new_object 2 Gray [], new_object 3 White []]"
  by (simp add: dijkstraWriteBarrier_def demo_defs)

section \<open>C9: marking terminates, also on cyclic graphs\<close>

text \<open>
  Claim C9. \<^verbatim>\<open>markObject\<close> and \<^verbatim>\<open>markPhase\<close> terminate on every finite object graph,
  cyclic or not, and each object is processed at most once. For \<^verbatim>\<open>markPhase\<close>: the
  recursion that models its loop is well-founded at every heap and every worklist
  (the number of White objects plus the length of the worklist decreases), and in a
  run that returns the objects that were scanned and turned Black are pairwise
  distinct, so there are at most as many rounds as objects. For \<^verbatim>\<open>markObject\<close>: a
  recursion depth of one more than the number of objects always suffices for a
  result, and the objects it scans are pairwise distinct.
\<close>

theorem marking_terminates_and_scans_once:
  "markPhase_loop_dom (h, g) \<and>
   (\<forall>h' ws. markPhase h root = Inr (h', ws) \<longrightarrow>
      distinct (scanned ws) \<and> length (scanned ws) \<le> length h) \<and>
   (\<exists>r. markObject (Suc (length h)) h obj = Some r) \<and>
   (\<forall>n h' ws. markObject n h obj = Some (Inr (h', ws)) \<longrightarrow>
      distinct (scanned ws) \<and> length (scanned ws) \<le> length h)"
proof (intro conjI)
  show "markPhase_loop_dom (h, g)"
    using markPhase_loop_total by simp
next
  show "\<forall>h' ws. markPhase h root = Inr (h', ws) \<longrightarrow>
      distinct (scanned ws) \<and> length (scanned ws) \<le> length h"
    using markPhase_spec(9) markPhase_scanned_bound by blast
next
  have "whites h \<le> card {..<length h}"
    unfolding whites_def by (intro card_mono) auto
  then have "whites h < Suc (length h)" by simp
  with markObject_returns(1)[of h "Suc (length h)" obj]
  show "\<exists>r. markObject (Suc (length h)) h obj = Some r" by blast
next
  show "\<forall>n h' ws. markObject n h obj = Some (Inr (h', ws)) \<longrightarrow>
      distinct (scanned ws) \<and> length (scanned ws) \<le> length h"
  proof (intro allI impI)
    fix n h' ws assume "markObject n h obj = Some (Inr (h', ws))"
    with markObject_spec(1)[of n h obj h' ws] have "marked_by h h' ws" by simp
    then have d: "distinct (scanned ws)" and b: "\<forall>q \<in> set (scanned ws). q < length h"
      by (simp_all add: marked_by_def)
    from d distinct_bounded_length[OF d b]
    show "distinct (scanned ws) \<and> length (scanned ws) \<le> length h" by simp
  qed
qed

text \<open>
  The theorem at the cyclic graph: two White objects that point to each other, and the
  first of them also to itself.
\<close>

theorem marking_terminates_and_scans_once_witness:
  "markPhase cycle_demo 0
     = Inr ([new_object 1 Black [1, 0], new_object 2 Black [0]],
            [(0, Gray), (1, Gray), (0, Black), (1, Black)]) \<and>
   distinct (scanned [(0, Gray), (1, Gray), (0, Black), (1::nat, Black)]) \<and>
   markObject 3 cycle_demo 0
     = Some (Inr ([new_object 1 Black [1, 0], new_object 2 Black [0]],
                  [(0, Gray), (1, Gray), (1, Black), (0, Black)]))"
proof -
  let ?h' = "[new_object 1 Black [1, 0], new_object 2 Black [0]]"
  have m: "markPhase cycle_demo 0 = Inr (?h', [(0, Gray), (1, Gray), (0, Black), (1, Black)])"
    by (simp add: markPhase_def cycle_demo_def new_object_def set_color_def)
  have o: "markObject 3 cycle_demo 0
     = Some (Inr (?h', [(0, Gray), (1, Gray), (1, Black), (0, Black)]))"
    by (simp add: numeral_3_eq_3 cycle_demo_def new_object_def set_color_def)
  from marking_terminates_and_scans_once[of cycle_demo "[]" 0 0] m
  have "distinct (scanned [(0, Gray), (1, Gray), (0, Black), (1::nat, Black)])" by blast
  with m o show ?thesis by simp
qed

section \<open>C10: the sweeper writes nothing\<close>

text \<open>
  Claim C10. For every object graph, running \<^verbatim>\<open>sweepPhase\<close> leaves every object's
  colour, children list and allocation status exactly as they were before the call:
  it only traverses and reports. In the model the heap the sweep leaves is the heap
  it was given, for every depth bound, whether the traversal returns a report,
  panics on a nil pointer or does not return.
\<close>

theorem sweepPhase_frame:
  "fst (sweepPhase n h root) = h \<and>
   length (fst (sweepPhase n h root)) = length h \<and>
   map color (fst (sweepPhase n h root)) = map color h \<and>
   map children (fst (sweepPhase n h root)) = map children h"
  by (simp add: sweepPhase_def)

end
